theory Spec2Isabelle
  imports Main "HOL-Library.Word" "HOL-Library.Multiset"
begin

unbundle bit_operations_syntax

section \<open>Machine model of Memory SF2000\<close>

text \<open>
  The SF2000 is a 32-bit little-endian MIPS machine: \<open>UInt8\<close> is an 8-bit word,
  \<open>UInt32\<close> and every pointer cast to \<open>UInt32\<close> is a 32-bit word whose arithmetic
  wraps. Memory is byte addressed. The null pointer is the address 0.
\<close>

type_synonym u8 = "8 word"
type_synonym u32 = "32 word"
type_synonym memory = "u32 \<Rightarrow> u8"

text \<open>What the C code can do wrong at run time, as values.\<close>

datatype fault = NullDereference | OutOfBounds | DivideByZero

definition SF2000_CACHE_LINE_SIZE :: u32 where
  "SF2000_CACHE_LINE_SIZE = 32"

definition SF2000_MAX_ROM_SIZE :: int where
  "SF2000_MAX_ROM_SIZE = 0x200000"

definition SF2000_POOL_COUNT :: nat where
  "SF2000_POOL_COUNT = 8"

definition SF2000_POOL_SIZES :: "u32 list" where
  "SF2000_POOL_SIZES = [32, 64, 128, 256, 512, 1024, 2048, 4096]"

subsection \<open>Counted loops\<close>

text \<open>
  \<open>for (UInt32 i = i0; i < n; i++) s = body i s;\<close> The counter is a 32-bit word; the
  loop ends because \<open>i < n\<close> keeps \<open>i + 1\<close> from wrapping.
\<close>

function for_u32 :: "u32 \<Rightarrow> u32 \<Rightarrow> (u32 \<Rightarrow> 's \<Rightarrow> 's) \<Rightarrow> 's \<Rightarrow> 's" where
  "for_u32 i n body s = (if i < n then for_u32 (i + 1) n body (body i s) else s)"
  by pat_completeness auto
termination
proof (relation "measure (\<lambda>(i, n, body, s). unat n - unat i)")
  show "wf (measure (\<lambda>(i :: u32, n :: u32, body :: u32 \<Rightarrow> 's \<Rightarrow> 's, s :: 's). unat n - unat i))"
    by simp
next
  fix i n :: u32 and body :: "u32 \<Rightarrow> 's \<Rightarrow> 's" and s :: 's
  assume lt: "i < n"
  then have "unat i < unat n"
    by (simp add: word_less_nat_alt)
  moreover have "unat (i + 1) = unat i + 1"
    using lt by unat_arith
  ultimately show "((i + 1, n, body, body i s), (i, n, body, s))
      \<in> measure (\<lambda>(i, n, body, s). unat n - unat i)"
    by simp
qed

declare for_u32.simps [simp del]

subsection \<open>Word access to byte memory\<close>

text \<open>
  Reading and writing a \<open>UInt32\<close> through a pointer touches four consecutive bytes, the
  least significant one first.
\<close>

definition load32 :: "memory \<Rightarrow> u32 \<Rightarrow> u32" where
  "load32 m a =
     ucast (m a) OR push_bit 8 (ucast (m (a + 1))) OR
     push_bit 16 (ucast (m (a + 2))) OR push_bit 24 (ucast (m (a + 3)))"

definition store32 :: "memory \<Rightarrow> u32 \<Rightarrow> u32 \<Rightarrow> memory" where
  "store32 m a w =
     m(a := ucast w, a + 1 := ucast (drop_bit 8 w),
       a + 2 := ucast (drop_bit 16 w), a + 3 := ucast (drop_bit 24 w))"

subsection \<open>MIPS-optimized memory copy functions\<close>

text \<open>
  The state of a copy loop: the memory and the two running pointers
  (\<open>dst32\<close>/\<open>dst8\<close> and \<open>src32\<close>/\<open>src8\<close>). The parameter \<open>size\<close> of the source
  is written \<open>sz\<close> throughout.
\<close>

type_synonym copy_state = "memory \<times> u32 \<times> u32"

text \<open>\<open>*dst32++ = *src32++;\<close>\<close>

definition copy_word_step :: "copy_state \<Rightarrow> copy_state" where
  "copy_word_step = (\<lambda>(m, d, s). (store32 m d (load32 m s), d + 4, s + 4))"

text \<open>\<open>*dst8++ = *src8++;\<close>\<close>

definition copy_byte_step :: "copy_state \<Rightarrow> copy_state" where
  "copy_byte_step = (\<lambda>(m, d, s). (m(d := m s), d + 1, s + 1))"

text \<open>
  The C library's \<open>memcpy\<close>, taken as the naive forward byte-wise copy it is for the
  regions it is defined on.
\<close>

definition memcpy :: "memory \<Rightarrow> u32 \<Rightarrow> u32 \<Rightarrow> u32 \<Rightarrow> memory" where
  "memcpy m dst src sz = fst (for_u32 0 sz (\<lambda>i. copy_byte_step) (m, dst, src))"

definition sf2000_memcpy_aligned :: "memory \<Rightarrow> u32 \<Rightarrow> u32 \<Rightarrow> u32 \<Rightarrow> memory" where
  "sf2000_memcpy_aligned m dst src sz =
     (let word_count = drop_bit 2 sz;
          remainder = sz AND 3
      in if dst AND 3 = 0 \<and> src AND 3 = 0 then
           (let (m1, dst32, src32) = for_u32 0 word_count (\<lambda>i. copy_word_step) (m, dst, src)
            in if remainder > 0
               then fst (for_u32 0 remainder (\<lambda>i. copy_byte_step) (m1, dst32, src32))
               else m1)
         else memcpy m dst src sz)"

text \<open>The state of a fill loop: the memory and the running pointer.\<close>

type_synonym fill_state = "memory \<times> u32"

text \<open>\<open>*dst32++ = pattern;\<close> and \<open>*dst8++ = value;\<close>\<close>

definition fill_word_step :: "u32 \<Rightarrow> fill_state \<Rightarrow> fill_state" where
  "fill_word_step pattern = (\<lambda>(m, d). (store32 m d pattern, d + 4))"

definition fill_byte_step :: "u8 \<Rightarrow> fill_state \<Rightarrow> fill_state" where
  "fill_byte_step v = (\<lambda>(m, d). (m(d := v), d + 1))"

text \<open>The C library's \<open>memset\<close>: the naive byte-wise fill.\<close>

definition memset :: "memory \<Rightarrow> u32 \<Rightarrow> u8 \<Rightarrow> u32 \<Rightarrow> memory" where
  "memset m dst v sz = fst (for_u32 0 sz (\<lambda>i. fill_byte_step v) (m, dst))"

definition sf2000_memset_aligned :: "memory \<Rightarrow> u32 \<Rightarrow> u8 \<Rightarrow> u32 \<Rightarrow> memory" where
  "sf2000_memset_aligned m dst v sz =
     (let word_count = drop_bit 2 sz;
          remainder = sz AND 3;
          pattern = push_bit 24 (ucast v) OR push_bit 16 (ucast v) OR
                    push_bit 8 (ucast v) OR (ucast v :: u32)
      in if dst AND 3 = 0 then
           (let (m1, dst32) = for_u32 0 word_count (\<lambda>i. fill_word_step pattern) (m, dst)
            in if remainder > 0
               then fst (for_u32 0 remainder (\<lambda>i. fill_byte_step v) (m1, dst32))
               else m1)
         else memset m dst v sz)"

text \<open>One unrolled burst: \<open>dst32[0] = src32[0]; ... dst32[7] = src32[7]; dst32 += 8; src32 += 8;\<close>\<close>

definition burst_step :: "copy_state \<Rightarrow> copy_state" where
  "burst_step = (\<lambda>(m, d, s).
     (let m0 = store32 m d (load32 m s);
          m1 = store32 m0 (d + 4) (load32 m0 (s + 4));
          m2 = store32 m1 (d + 8) (load32 m1 (s + 8));
          m3 = store32 m2 (d + 12) (load32 m2 (s + 12));
          m4 = store32 m3 (d + 16) (load32 m3 (s + 16));
          m5 = store32 m4 (d + 20) (load32 m4 (s + 20));
          m6 = store32 m5 (d + 24) (load32 m5 (s + 24));
          m7 = store32 m6 (d + 28) (load32 m6 (s + 28))
      in (m7, d + 32, s + 32)))"

definition sf2000_memcpy_burst :: "memory \<Rightarrow> u32 \<Rightarrow> u32 \<Rightarrow> u32 \<Rightarrow> memory" where
  "sf2000_memcpy_burst m dst src sz =
     (if sz \<ge> SF2000_CACHE_LINE_SIZE \<and> dst AND 3 = 0 \<and> src AND 3 = 0 then
        (let burst_count = sz div SF2000_CACHE_LINE_SIZE;
             remaining_size = sz mod SF2000_CACHE_LINE_SIZE;
             (m1, dst32, src32) = for_u32 0 burst_count (\<lambda>burst. burst_step) (m, dst, src)
         in if remaining_size > 0
            then sf2000_memcpy_aligned m1 dst32 src32 remaining_size
            else m1)
      else sf2000_memcpy_aligned m dst src sz)"

subsection \<open>The general-purpose allocator\<close>

text \<open>
  \<open>malloc\<close> and \<open>free\<close> belong to the C library. The model records every call made to
  them and takes the pointers that \<open>malloc\<close> returns from a list of answers supplied by the
  environment (null once the list is used up, or wherever the list says so).
\<close>

datatype sys_call = SysMalloc u32 | SysFree u32

record sys_heap =
  malloc_answers :: "u32 list"
  sys_calls :: "sys_call list"

definition malloc :: "u32 \<Rightarrow> sys_heap \<Rightarrow> u32 \<times> sys_heap" where
  "malloc sz h =
     (case malloc_answers h of
        [] \<Rightarrow> (0, h\<lparr>sys_calls := sys_calls h @ [SysMalloc sz]\<rparr>)
      | p # rest \<Rightarrow> (p, h\<lparr>malloc_answers := rest, sys_calls := sys_calls h @ [SysMalloc sz]\<rparr>))"

definition free :: "u32 \<Rightarrow> sys_heap \<Rightarrow> sys_heap" where
  "free ptr h = h\<lparr>sys_calls := sys_calls h @ [SysFree ptr]\<rparr>"

subsection \<open>Fast memory allocation pools\<close>

text \<open>
  \<open>free_list\<close> points to a heap array of \<open>UInt32\<close>: \<open>None\<close> is the null pointer,
  \<open>Some xs\<close> the array it points to.
\<close>

record SF2000_MemoryPool =
  pool_memory :: u32
  block_size :: u32
  block_count :: u32
  free_count :: u32
  free_list :: "u32 list option"

type_synonym pool_set = "SF2000_MemoryPool list"

text \<open>A global of static storage duration starts out all zero.\<close>

definition zero_pool :: SF2000_MemoryPool where
  "zero_pool = \<lparr>pool_memory = 0, block_size = 0, block_count = 0, free_count = 0, free_list = None\<rparr>"

definition zero_pools :: pool_set where
  "zero_pools = replicate SF2000_POOL_COUNT zero_pool"

definition blocks_per_pool :: "u32 list" where
  "blocks_per_pool = [256, 128, 64, 32, 16, 8, 4, 2]"

text \<open>\<open>a[i]\<close> and \<open>a[i] = v\<close> through a pointer \<open>a\<close>.\<close>

definition array_read :: "u32 list option \<Rightarrow> u32 \<Rightarrow> fault + u32" where
  "array_read a i =
     (case a of
        None \<Rightarrow> Inl NullDereference
      | Some xs \<Rightarrow> if unat i < length xs then Inr (xs ! unat i) else Inl OutOfBounds)"

definition array_write :: "u32 list option \<Rightarrow> u32 \<Rightarrow> u32 \<Rightarrow> fault + u32 list option" where
  "array_write a i v =
     (case a of
        None \<Rightarrow> Inl NullDereference
      | Some xs \<Rightarrow> if unat i < length xs then Inr (Some (xs[unat i := v])) else Inl OutOfBounds)"

text \<open>\<open>pool->free_list[j] = j;\<close>\<close>

definition init_free_list_step :: "u32 \<Rightarrow> fault + u32 list option \<Rightarrow> fault + u32 list option" where
  "init_free_list_step j r = (case r of Inl e \<Rightarrow> Inl e | Inr fl \<Rightarrow> array_write fl j j)"

text \<open>
  The body of the loop of \<open>sf2000_memory_pools_init\<close> for pool \<open>i\<close>. The array that
  the second \<open>malloc\<close> returns is uninitialised; the model fills it with zeros.
\<close>

definition init_pool :: "nat \<Rightarrow> SF2000_MemoryPool \<Rightarrow> sys_heap \<Rightarrow> fault + (SF2000_MemoryPool \<times> sys_heap)" where
  "init_pool i pool0 h0 =
     (let pool1 = pool0\<lparr>block_size := SF2000_POOL_SIZES ! i, block_count := blocks_per_pool ! i\<rparr>;
          pool2 = pool1\<lparr>free_count := block_count pool1\<rparr>;
          total_size = block_size pool2 * block_count pool2;
          (p, h1) = malloc (total_size + SF2000_CACHE_LINE_SIZE - 1) h0;
          pool3 = pool2\<lparr>pool_memory := p\<rparr>
      in if pool_memory pool3 \<noteq> 0 then
           (let addr = (pool_memory pool3 + SF2000_CACHE_LINE_SIZE - 1) AND NOT (SF2000_CACHE_LINE_SIZE - 1);
                pool4 = pool3\<lparr>pool_memory := addr\<rparr>;
                (q, h2) = malloc (block_count pool4 * 4) h1;
                fl = (if q = 0 then None else Some (replicate (unat (block_count pool4)) 0))
            in case for_u32 0 (block_count pool4) init_free_list_step (Inr fl) of
                 Inl e \<Rightarrow> Inl e
               | Inr fl' \<Rightarrow> Inr (pool4\<lparr>free_list := fl'\<rparr>, h2))
         else Inr (pool3, h1))"

function pools_init_from :: "nat \<Rightarrow> pool_set \<Rightarrow> sys_heap \<Rightarrow> fault + (pool_set \<times> sys_heap)" where
  "pools_init_from i ps h =
     (if i < SF2000_POOL_COUNT then
        (case init_pool i (ps ! i) h of
           Inl e \<Rightarrow> Inl e
         | Inr (pool, h') \<Rightarrow> pools_init_from (i + 1) (ps[i := pool]) h')
      else Inr (ps, h))"
  by pat_completeness auto
termination
  by (relation "measure (\<lambda>(i, ps, h). SF2000_POOL_COUNT - i)") auto

declare pools_init_from.simps [simp del]

definition sf2000_memory_pools_init :: "pool_set \<Rightarrow> sys_heap \<Rightarrow> fault + (pool_set \<times> sys_heap)" where
  "sf2000_memory_pools_init ps h = pools_init_from 0 ps h"

function malloc_fast_from :: "nat \<Rightarrow> pool_set \<Rightarrow> sys_heap \<Rightarrow> u32 \<Rightarrow> fault + (u32 \<times> pool_set \<times> sys_heap)" where
  "malloc_fast_from i ps h sz =
     (if i < SF2000_POOL_COUNT then
        (let pool = ps ! i
         in if sz \<le> block_size pool \<and> free_count pool > 0 then
              (let pool' = pool\<lparr>free_count := free_count pool - 1\<rparr>
               in case array_read (free_list pool') (free_count pool') of
                    Inl e \<Rightarrow> Inl e
                  | Inr block_index \<Rightarrow>
                      Inr (pool_memory pool' + block_index * block_size pool', ps[i := pool'], h))
            else malloc_fast_from (i + 1) ps h sz)
      else (let (p, h') = malloc sz h in Inr (p, ps, h')))"
  by pat_completeness auto
termination
  by (relation "measure (\<lambda>(i, ps, h, sz). SF2000_POOL_COUNT - i)") auto

declare malloc_fast_from.simps [simp del]

definition sf2000_malloc_fast :: "pool_set \<Rightarrow> sys_heap \<Rightarrow> u32 \<Rightarrow> fault + (u32 \<times> pool_set \<times> sys_heap)" where
  "sf2000_malloc_fast ps h sz = malloc_fast_from 0 ps h sz"

text \<open>
  \<open>ptr >= pool->pool_memory && ptr < (UInt8*)pool->pool_memory + (pool->block_size * pool->block_count)\<close>
\<close>

definition in_pool_span :: "SF2000_MemoryPool \<Rightarrow> u32 \<Rightarrow> bool" where
  "in_pool_span pool ptr \<longleftrightarrow>
     ptr \<ge> pool_memory pool \<and> ptr < pool_memory pool + block_size pool * block_count pool"

function free_fast_from :: "nat \<Rightarrow> pool_set \<Rightarrow> sys_heap \<Rightarrow> u32 \<Rightarrow> fault + (pool_set \<times> sys_heap)" where
  "free_fast_from i ps h ptr =
     (if i < SF2000_POOL_COUNT then
        (let pool = ps ! i
         in if in_pool_span pool ptr then
              (let offset = ptr - pool_memory pool
               in if block_size pool = 0 then Inl DivideByZero
                  else
                    (let block_index = offset div block_size pool
                     in if free_count pool < block_count pool then
                          (case array_write (free_list pool) (free_count pool) block_index of
                             Inl e \<Rightarrow> Inl e
                           | Inr fl \<Rightarrow>
                               Inr (ps[i := pool\<lparr>free_list := fl, free_count := free_count pool + 1\<rparr>], h))
                        else Inr (ps, h)))
            else free_fast_from (i + 1) ps h ptr)
      else Inr (ps, free ptr h))"
  by pat_completeness auto
termination
  by (relation "measure (\<lambda>(i, ps, h, ptr). SF2000_POOL_COUNT - i)") auto

declare free_fast_from.simps [simp del]

definition sf2000_free_fast :: "pool_set \<Rightarrow> sys_heap \<Rightarrow> u32 \<Rightarrow> fault + (pool_set \<times> sys_heap)" where
  "sf2000_free_fast ps h ptr = (if ptr = 0 then Inr (ps, h) else free_fast_from 0 ps h ptr)"

subsection \<open>Optimized ROM loading\<close>

text \<open>
  A file as the loader sees it: \<open>file_length\<close> is what \<open>ftell\<close> reports after seeking to
  the end (negative when \<open>ftell\<close> fails), \<open>file_bytes\<close> the bytes that reading from the
  start delivers before the end of the file or an I/O error stops it. \<open>fopen\<close> looks the
  name up; \<open>None\<close> is a file that cannot be opened.
\<close>

record rom_file =
  file_length :: int
  file_bytes :: "u8 list"

type_synonym filesystem = "string \<Rightarrow> rom_file option"

definition fopen :: "filesystem \<Rightarrow> string \<Rightarrow> rom_file option" where
  "fopen fs filename = fs filename"

primrec write_bytes :: "memory \<Rightarrow> u32 \<Rightarrow> u8 list \<Rightarrow> memory" where
  "write_bytes m p [] = m"
| "write_bytes m p (b # bs) = write_bytes (m(p := b)) (p + 1) bs"

text \<open>
  \<open>fread(write_ptr, 1, to_read, file)\<close> at file position \<open>pos\<close>: the bytes delivered
  are stored from \<open>write_ptr\<close> on, their number is returned.
\<close>

definition fread :: "rom_file \<Rightarrow> nat \<Rightarrow> memory \<Rightarrow> u32 \<Rightarrow> u32 \<Rightarrow> u32 \<times> memory" where
  "fread file pos m write_ptr to_read =
     (let got = take (unat to_read) (drop pos (file_bytes file))
      in (of_nat (length got), write_bytes m write_ptr got))"

definition chunk_size :: u32 where
  "chunk_size = 8192"

definition next_to_read :: "u32 \<Rightarrow> u32 \<Rightarrow> u32" where
  "next_to_read file_size bytes_read =
     (if file_size - bytes_read < chunk_size then file_size - bytes_read else chunk_size)"

text \<open>
  The \<open>while (bytes_read < file_size)\<close> loop. The file position is \<open>bytes_read\<close>: the
  file was rewound before the loop and only full reads continue it. The result is
  \<open>False\<close> when the loop was left through the read-error branch.
\<close>

function read_loop :: "rom_file \<Rightarrow> u32 \<Rightarrow> memory \<Rightarrow> u32 \<Rightarrow> u32 \<Rightarrow> bool \<times> memory" where
  "read_loop file file_size m bytes_read write_ptr =
     (if bytes_read < file_size then
        (if fst (fread file (unat bytes_read) m write_ptr (next_to_read file_size bytes_read))
              \<noteq> next_to_read file_size bytes_read
         then (False, snd (fread file (unat bytes_read) m write_ptr (next_to_read file_size bytes_read)))
         else read_loop file file_size
                (snd (fread file (unat bytes_read) m write_ptr (next_to_read file_size bytes_read)))
                (bytes_read + next_to_read file_size bytes_read)
                (write_ptr + next_to_read file_size bytes_read))
      else (True, m))"
  by pat_completeness auto
termination
proof (relation "measure (\<lambda>(file, file_size, m, bytes_read, write_ptr). unat file_size - unat bytes_read)")
  show "wf (measure (\<lambda>(file :: rom_file, file_size :: u32, m :: memory, bytes_read :: u32,
      write_ptr :: u32). unat file_size - unat bytes_read))"
    by simp
next
  fix rf :: rom_file and file_size bytes_read write_ptr :: u32 and m :: memory
  assume lt: "bytes_read < file_size"
  have pos: "0 < unat (next_to_read file_size bytes_read)"
    using lt unfolding next_to_read_def chunk_size_def by (simp split: if_splits) unat_arith
  have le: "unat (next_to_read file_size bytes_read) \<le> unat file_size - unat bytes_read"
    using lt unfolding next_to_read_def chunk_size_def by (simp split: if_splits) unat_arith
  have "unat (bytes_read + next_to_read file_size bytes_read)
      = unat bytes_read + unat (next_to_read file_size bytes_read)"
    using le lt by unat_arith
  then show "((rf, file_size,
       snd (fread rf (unat bytes_read) m write_ptr (next_to_read file_size bytes_read)),
       bytes_read + next_to_read file_size bytes_read,
       write_ptr + next_to_read file_size bytes_read),
      (rf, file_size, m, bytes_read, write_ptr))
      \<in> measure (\<lambda>(file, file_size, m, bytes_read, write_ptr). unat file_size - unat bytes_read)"
    using pos le lt by (simp add: word_less_nat_alt)
qed

declare read_loop.simps [simp del]

text \<open>
  The result is the returned pointer, the value stored to \<open>*size\<close>, and the pools, the
  general-purpose allocator and the memory as the call leaves them.
\<close>

definition sf2000_rom_load_optimized ::
  "filesystem \<Rightarrow> string \<Rightarrow> pool_set \<Rightarrow> sys_heap \<Rightarrow> memory
     \<Rightarrow> fault + (u32 \<times> int \<times> pool_set \<times> sys_heap \<times> memory)" where
  "sf2000_rom_load_optimized fs filename ps h m =
     (case fopen fs filename of
        None \<Rightarrow> Inr (0, 0, ps, h, m)
      | Some file \<Rightarrow>
          (let file_size = file_length file
           in if file_size \<le> 0 \<or> file_size > SF2000_MAX_ROM_SIZE then Inr (0, 0, ps, h, m)
              else
                (case sf2000_malloc_fast ps h (word_of_int (file_size + uint SF2000_CACHE_LINE_SIZE)) of
                   Inl e \<Rightarrow> Inl e
                 | Inr (buffer, ps1, h1) \<Rightarrow>
                     if buffer = 0 then Inr (0, 0, ps1, h1, m)
                     else
                       (let addr = (buffer + SF2000_CACHE_LINE_SIZE - 1) AND NOT (SF2000_CACHE_LINE_SIZE - 1);
                            aligned_buffer = addr;
                            (ok, m') = read_loop file (word_of_int file_size) m 0 aligned_buffer
                        in if \<not> ok then
                             (case sf2000_free_fast ps1 h1 buffer of
                                Inl e \<Rightarrow> Inl e
                              | Inr (ps2, h2) \<Rightarrow> Inr (0, 0, ps2, h2, m'))
                           else Inr (aligned_buffer, file_size, ps1, h1, m')))))"

subsection \<open>SF2000 memory system state\<close>

text \<open>
  The two structs of the header; a pointer is its address. Both structs name their last
  field \<open>padding\<close>; the records tell them apart as \<open>rom_padding\<close> and \<open>slot_padding\<close>.
\<close>

record SF2000_RomInfo =
  rom_data :: u32
  rom_size :: u32
  rom_crc32 :: u32
  mapper_type :: "16 word"
  slot_config :: u8
  rom_padding :: "u8 list"

record SF2000_SlotState =
  page_data :: "u32 list"
  page_flags :: "u32 list"
  mapper_regs :: "16 word list"
  slot_select :: u8
  subslot_select :: u8
  ram_config :: u8
  slot_padding :: "u8 list"

text \<open>The three globals of the file.\<close>

record memory_system =
  sf2000_memory_pools :: pool_set
  sf2000_rom_cache :: "SF2000_RomInfo list"
  sf2000_slot_states :: "SF2000_SlotState list"

text \<open>What \<open>memset(x, 0, sizeof(x))\<close> leaves in each array element.\<close>

definition zero_rom_info :: SF2000_RomInfo where
  "zero_rom_info = \<lparr>rom_data = 0, rom_size = 0, rom_crc32 = 0, mapper_type = 0,
     slot_config = 0, rom_padding = replicate 5 0\<rparr>"

definition zero_slot_state :: SF2000_SlotState where
  "zero_slot_state = \<lparr>page_data = replicate 4 0, page_flags = replicate 4 0,
     mapper_regs = replicate 16 0, slot_select = 0, subslot_select = 0, ram_config = 0,
     slot_padding = replicate 5 0\<rparr>"

definition sf2000_memory_reset :: "memory_system \<Rightarrow> memory_system" where
  "sf2000_memory_reset s =
     s\<lparr>sf2000_rom_cache := replicate 16 zero_rom_info,
       sf2000_slot_states := replicate 4 zero_slot_state\<rparr>"

subsection \<open>Conditions used by the allocator\<close>

text \<open>The test of \<open>sf2000_malloc_fast\<close>: \<open>size <= pool->block_size && pool->free_count > 0\<close>.\<close>

definition pool_fits :: "SF2000_MemoryPool \<Rightarrow> u32 \<Rightarrow> bool" where
  "pool_fits pool sz \<longleftrightarrow> sz \<le> block_size pool \<and> free_count pool > 0"



subsection \<open>The pools after initialization\<close>

text \<open>
  Pool \<open>i\<close> as \<open>sf2000_memory_pools_init\<close> leaves it when \<open>malloc\<close> answered \<open>a\<close> to
  the request for its backing storage and did not fail for its free list.
\<close>

definition fresh_pool :: "nat \<Rightarrow> u32 \<Rightarrow> SF2000_MemoryPool" where
  "fresh_pool i a =
     \<lparr>pool_memory = (a + SF2000_CACHE_LINE_SIZE - 1) AND NOT (SF2000_CACHE_LINE_SIZE - 1),
      block_size = SF2000_POOL_SIZES ! i,
      block_count = blocks_per_pool ! i,
      free_count = blocks_per_pool ! i,
      free_list = Some (map of_nat [0..<unat (blocks_per_pool ! i)])\<rparr>"

text \<open>
  A start of the system in which the first \<open>malloc\<close> of \<open>sf2000_memory_pools_init\<close>,
  the backing storage of the 32-byte pool, fails and every later one succeeds.
\<close>

definition failed_boot_heap :: sys_heap where
  "failed_boot_heap = \<lparr>malloc_answers = [0, 0x13000, 0x91000, 0x16000, 0x92000, 0x19000, 0x93000,
     0x1C000, 0x94000, 0x1F000, 0x95000, 0x22000, 0x96000, 0x25000, 0x97000], sys_calls = []\<rparr>"

subsection \<open>An example start of the system\<close>

text \<open>
  The answers of \<open>malloc\<close> to the sixteen requests of \<open>sf2000_memory_pools_init\<close>
  (backing storage and free list of each pool in turn), one more block for later, and
  the pools that the initialization builds from them.
\<close>

definition boot_answers :: "u32 list" where
  "boot_answers = [0x10000, 0x90000, 0x13000, 0x91000, 0x16000, 0x92000, 0x19000, 0x93000,
     0x1C000, 0x94000, 0x1F000, 0x95000, 0x22000, 0x96000, 0x25000, 0x97000]"

definition boot_heap :: sys_heap where
  "boot_heap = \<lparr>malloc_answers = boot_answers @ [0x200000], sys_calls = []\<rparr>"

text \<open>The general-purpose allocator in the example runs: one block left to hand out.\<close>

definition run_heap :: sys_heap where
  "run_heap = \<lparr>malloc_answers = [0x200000], sys_calls = []\<rparr>"

definition boot_pools :: pool_set where
  "boot_pools = map (\<lambda>k. fresh_pool k (boot_answers ! (2 * k))) [0..<SF2000_POOL_COUNT]"

subsection \<open>Rounding up to a cache line\<close>

text \<open>
  The expression \<open>(addr + SF2000_CACHE_LINE_SIZE - 1) & ~(SF2000_CACHE_LINE_SIZE - 1)\<close> of
  \<open>sf2000_memory_pools_init\<close> and \<open>sf2000_rom_load_optimized\<close>, under a name.
\<close>

definition align_up :: "u32 \<Rightarrow> u32" where
  "align_up p = (p + SF2000_CACHE_LINE_SIZE - 1) AND NOT (SF2000_CACHE_LINE_SIZE - 1)"

subsection \<open>Example files\<close>

text \<open>
  A three-byte file, a 5000-byte file too large for any pool, a general-purpose
  allocator that has nothing left, and a memory of zeros.
\<close>

definition tiny_rom :: rom_file where
  "tiny_rom = \<lparr>file_length = 3, file_bytes = [1, 2, 3]\<rparr>"

definition big_rom :: rom_file where
  "big_rom = \<lparr>file_length = 5000, file_bytes = replicate 5000 0\<rparr>"

definition rom_fs :: filesystem where
  "rom_fs name =
     (if name = ''tiny.rom'' then Some tiny_rom
      else if name = ''game.rom'' then Some big_rom
      else None)"

definition empty_heap :: sys_heap where
  "empty_heap = \<lparr>malloc_answers = [], sys_calls = []\<rparr>"

definition zero_memory :: memory where
  "zero_memory = (\<lambda>a. 0)"

subsection \<open>Non-overlapping regions\<close>

text \<open>
  Two regions of \<open>n\<close> bytes that lie inside the address space, one wholly before the
  other.
\<close>

definition regions_apart :: "u32 \<Rightarrow> u32 \<Rightarrow> nat \<Rightarrow> bool" where
  "regions_apart dst src n \<longleftrightarrow>
     unat dst + n \<le> unat src \<and> unat src + n \<le> 2 ^ 32 \<or>
     unat src + n \<le> unat dst \<and> unat dst + n \<le> 2 ^ 32"

subsection \<open>Sequences of allocator calls\<close>

text \<open>
  A caller's view of the allocator: a call is \<open>sf2000_malloc_fast(size)\<close> or
  \<open>sf2000_free_fast(ptr)\<close>. Besides the pools and the general-purpose allocator, the
  state keeps, for the statements only, the list \<open>live\<close> of the non-null pointers that
  allocations have returned and that have not been freed since.
\<close>

datatype call = Allocate u32 | Free u32

record alloc_state =
  pools :: pool_set
  heap :: sys_heap
  live :: "u32 list"

definition do_call :: "call \<Rightarrow> alloc_state \<Rightarrow> fault + alloc_state" where
  "do_call c s =
     (case c of
        Allocate sz \<Rightarrow>
          (case sf2000_malloc_fast (pools s) (heap s) sz of
             Inl e \<Rightarrow> Inl e
           | Inr (p, ps, h) \<Rightarrow>
               Inr \<lparr>pools = ps, heap = h, live = (if p = 0 then live s else p # live s)\<rparr>)
      | Free p \<Rightarrow>
          (case sf2000_free_fast (pools s) (heap s) p of
             Inl e \<Rightarrow> Inl e
           | Inr (ps, h) \<Rightarrow> Inr \<lparr>pools = ps, heap = h, live = remove1 p (live s)\<rparr>))"

fun run :: "call list \<Rightarrow> alloc_state \<Rightarrow> fault + alloc_state" where
  "run [] s = Inr s"
| "run (c # cs) s = (case do_call c s of Inl e \<Rightarrow> Inl e | Inr s' \<Rightarrow> run cs s')"

text \<open>
  A sequence never frees a pointer twice when every \<open>Free\<close> gets null or a pointer that
  is live at that moment.
\<close>

definition call_ok :: "call \<Rightarrow> alloc_state \<Rightarrow> bool" where
  "call_ok c s = (case c of Allocate sz \<Rightarrow> True | Free p \<Rightarrow> p = 0 \<or> p \<in> set (live s))"

fun no_double_free :: "call list \<Rightarrow> alloc_state \<Rightarrow> bool" where
  "no_double_free [] s = True"
| "no_double_free (c # cs) s =
     (call_ok c s \<and> (case do_call c s of Inl e \<Rightarrow> True | Inr s' \<Rightarrow> no_double_free cs s'))"

subsection \<open>What the environment guarantees at initialization\<close>

text \<open>
  \<open>reservation_size i\<close> is the byte count that \<open>sf2000_memory_pools_init\<close> requests for
  the backing storage of pool \<open>i\<close>. The answers of \<open>malloc\<close> are those of a working
  allocator when the sixteen requests of the initialization succeed, the eight
  backing-storage blocks lie strictly inside the address space and apart from each
  other, and every block handed out later is null or lies outside them (they are never
  released while the pools are in use).
\<close>

definition reservation_size :: "nat \<Rightarrow> nat" where
  "reservation_size i =
     unat (SF2000_POOL_SIZES ! i * blocks_per_pool ! i + SF2000_CACHE_LINE_SIZE - 1)"

definition reservations_ok :: "sys_heap \<Rightarrow> bool" where
  "reservations_ok h \<longleftrightarrow>
     (let as = malloc_answers h
      in 2 * SF2000_POOL_COUNT \<le> length as \<and>
         (\<forall>i<SF2000_POOL_COUNT.
            as ! (2 * i) \<noteq> 0 \<and> as ! (2 * i + 1) \<noteq> 0 \<and>
            unat (as ! (2 * i)) + reservation_size i < 2 ^ 32) \<and>
         (\<forall>i<SF2000_POOL_COUNT. \<forall>j<SF2000_POOL_COUNT. i \<noteq> j \<longrightarrow>
            unat (as ! (2 * i)) + reservation_size i \<le> unat (as ! (2 * j)) \<or>
            unat (as ! (2 * j)) + reservation_size j \<le> unat (as ! (2 * i))) \<and>
         (\<forall>p\<in>set (drop (2 * SF2000_POOL_COUNT) as). \<forall>i<SF2000_POOL_COUNT.
            unat p < unat (as ! (2 * i)) \<or> unat (as ! (2 * i)) + reservation_size i \<le> unat p))"

subsection \<open>Well-formed pools\<close>

text \<open>
  A pool is well formed when its span \<open>[pool_memory, pool_memory + block_size *
  block_count)\<close> is non-null and inside the address space, its free list is an array of
  \<open>block_count\<close> entries, \<open>free_count \<le> block_count\<close>, and the first \<open>free_count\<close>
  entries are block indices. The pool set is well formed when its eight pools are and
  their spans are apart.
\<close>

definition span_bytes :: "SF2000_MemoryPool \<Rightarrow> nat" where
  "span_bytes pool = unat (block_size pool) * unat (block_count pool)"

definition pool_wf :: "SF2000_MemoryPool \<Rightarrow> bool" where
  "pool_wf pool \<longleftrightarrow>
     0 < unat (block_size pool) \<and> 0 < unat (pool_memory pool) \<and>
     unat (pool_memory pool) + span_bytes pool < 2 ^ 32 \<and>
     (case free_list pool of
        None \<Rightarrow> False
      | Some fl \<Rightarrow>
          length fl = unat (block_count pool) \<and>
          unat (free_count pool) \<le> unat (block_count pool) \<and>
          (\<forall>x\<in>set (take (unat (free_count pool)) fl). x < block_count pool))"

definition pools_wf :: "pool_set \<Rightarrow> bool" where
  "pools_wf ps \<longleftrightarrow>
     length ps = SF2000_POOL_COUNT \<and>
     (\<forall>k<SF2000_POOL_COUNT. pool_wf (ps ! k)) \<and>
     (\<forall>j<SF2000_POOL_COUNT. \<forall>k<SF2000_POOL_COUNT. j \<noteq> k \<longrightarrow>
        unat (pool_memory (ps ! j)) + span_bytes (ps ! j) \<le> unat (pool_memory (ps ! k)) \<or>
        unat (pool_memory (ps ! k)) + span_bytes (ps ! k) \<le> unat (pool_memory (ps ! j)))"

text \<open>
  The index that \<open>sf2000_free_fast\<close> computes for a pointer, the address that
  \<open>sf2000_malloc_fast\<close> computes for an index, and the pointers of a list that lie in
  the span of a pool: the blocks of that pool currently allocated when the list is
  \<open>live\<close>.
\<close>

definition block_index :: "SF2000_MemoryPool \<Rightarrow> u32 \<Rightarrow> u32" where
  "block_index pool ptr = (ptr - pool_memory pool) div block_size pool"

definition block_addr :: "SF2000_MemoryPool \<Rightarrow> u32 \<Rightarrow> u32" where
  "block_addr pool x = pool_memory pool + x * block_size pool"

definition allocated :: "SF2000_MemoryPool \<Rightarrow> u32 list \<Rightarrow> u32 list" where
  "allocated pool ptrs = filter (in_pool_span pool) ptrs"

text \<open>
  The bookkeeping of a pool agrees with the live pointers: each live pointer in its span
  is the start of a block, and the indices of those blocks together with the first
  \<open>free_count\<close> entries of the free list are exactly the indices \<open>0 .. block_count - 1\<close>,
  each once. \<open>heap_apart\<close>: what \<open>malloc\<close> may still return lies outside every span.
\<close>

definition pool_tracked :: "SF2000_MemoryPool \<Rightarrow> u32 list \<Rightarrow> bool" where
  "pool_tracked pool ptrs \<longleftrightarrow>
     (case free_list pool of
        None \<Rightarrow> False
      | Some fl \<Rightarrow>
          (\<forall>p\<in>set (allocated pool ptrs). p = block_addr pool (block_index pool p)) \<and>
          mset (map (block_index pool) (allocated pool ptrs)) +
            mset (take (unat (free_count pool)) fl)
          = mset (map of_nat [0..<unat (block_count pool)]))"

definition heap_apart :: "pool_set \<Rightarrow> sys_heap \<Rightarrow> bool" where
  "heap_apart ps h \<longleftrightarrow>
     (\<forall>p\<in>set (malloc_answers h). \<forall>k<SF2000_POOL_COUNT. \<not> in_pool_span (ps ! k) p)"

definition tracked :: "alloc_state \<Rightarrow> bool" where
  "tracked s \<longleftrightarrow>
     pools_wf (pools s) \<and> heap_apart (pools s) (heap s) \<and>
     (\<forall>k<SF2000_POOL_COUNT. pool_tracked (pools s ! k) (live s))"

text \<open>The general-purpose allocator after the example start.\<close>

definition boot_heap_after :: sys_heap where
  "boot_heap_after =
     \<lparr>malloc_answers = [0x200000],
      sys_calls = [SysMalloc 8223, SysMalloc 1024, SysMalloc 8223, SysMalloc 512,
                   SysMalloc 8223, SysMalloc 256, SysMalloc 8223, SysMalloc 128,
                   SysMalloc 8223, SysMalloc 64, SysMalloc 8223, SysMalloc 32,
                   SysMalloc 8223, SysMalloc 16, SysMalloc 8223, SysMalloc 8]\<rparr>"

section \<open>Properties\<close>

subsection \<open>Loops and alignment\<close>

lemma unat_and3: "unat ((d::u32) AND 3) = unat d mod 4"
proof -
  have "d AND 3 = take_bit 2 d"
    by (simp add: take_bit_eq_mask mask_eq_exp_minus_1)
  then show ?thesis
    by (simp add: unsigned_take_bit_eq take_bit_eq_mod unat_mod)
qed

lemma and3_add4: "((d::u32) + 4 * x) AND 3 = d AND 3"
proof -
  have c: "(X mod 2 ^ 32) mod 4 = X mod 4" for X :: nat
    by (rule mod_mod_cancel) simp
  have "unat (d + 4 * x) mod 4 = ((unat d + (4 * unat x) mod 2 ^ 32) mod 2 ^ 32) mod 4"
    by (simp add: unat_word_ariths)
  also have "\<dots> = (unat d + (4 * unat x) mod 2 ^ 32) mod 4"
    by (rule c)
  also have "\<dots> = (unat d + ((4 * unat x) mod 2 ^ 32) mod 4) mod 4"
    by (rule mod_add_right_eq [symmetric])
  also have "\<dots> = (unat d + (4 * unat x) mod 4) mod 4"
    by (simp only: c)
  also have "\<dots> = unat d mod 4"
    by simp
  finally have "unat ((d + 4 * x) AND 3) = unat (d AND 3)"
    by (simp only: unat_and3)
  then show ?thesis by (simp only: word_unat_eq_iff)
qed

lemma for_u32_funpow_aux:
  "unat n - unat i = k \<Longrightarrow> i \<le> n \<Longrightarrow> for_u32 i n (\<lambda>j. f) s = (f ^^ k) s"
proof (induction k arbitrary: i s)
  case 0
  then have "\<not> i < n" by unat_arith
  then show ?case by (simp add: for_u32.simps)
next
  case (Suc k)
  then have lt: "i < n" by unat_arith
  then have u: "unat (i + 1) = unat i + 1" by unat_arith
  have "unat n - unat (i + 1) = k" using Suc.prems u by simp
  moreover have "i + 1 \<le> n" using lt by unat_arith
  ultimately have "for_u32 (i + 1) n (\<lambda>j. f) (f s) = (f ^^ k) (f s)"
    by (rule Suc.IH)
  then show ?case using lt by (simp add: for_u32.simps [of i] funpow_swap1)
qed

lemma for_u32_funpow: "for_u32 0 n (\<lambda>j. f) s = (f ^^ unat n) s"
  by (rule for_u32_funpow_aux) simp_all

lemma burst_step_eq: "burst_step = copy_word_step ^^ 8"
  by (rule ext)
    (simp add: burst_step_def copy_word_step_def eval_nat_numeral Let_def add.commute
      split: prod.splits)

lemma copy_words_ptrs:
  "(copy_word_step ^^ k) (m, d, s) = (m', d', s') \<Longrightarrow> d' = d + 4 * of_nat k \<and> s' = s + 4 * of_nat k"
proof (induction k arbitrary: m' d' s')
  case 0
  then show ?case by simp
next
  case (Suc k)
  obtain m1 d1 s1 where st: "(copy_word_step ^^ k) (m, d, s) = (m1, d1, s1)"
    by (cases "(copy_word_step ^^ k) (m, d, s)") auto
  from Suc.IH [OF st] have "d1 = d + 4 * of_nat k" "s1 = s + 4 * of_nat k" by simp_all
  with Suc.prems st show ?case
    by (simp add: copy_word_step_def algebra_simps)
qed

lemma copy_words_aligned:
  assumes "(copy_word_step ^^ k) (m, d, s) = (m', d', s')"
  shows "d' AND 3 = d AND 3" and "s' AND 3 = s AND 3"
  using copy_words_ptrs [OF assms] by (simp_all add: and3_add4)

lemma memcpy_aligned_funpow:
  "sf2000_memcpy_aligned m dst src sz =
     (if dst AND 3 = 0 \<and> src AND 3 = 0 then
        fst ((copy_byte_step ^^ (unat sz mod 4)) ((copy_word_step ^^ (unat sz div 4)) (m, dst, src)))
      else memcpy m dst src sz)"
proof -
  have w: "unat (drop_bit 2 sz) = unat sz div 4"
    by (simp add: drop_bit_eq_div unat_div)
  have r: "(sz AND 3 > 0) = (unat sz mod 4 \<noteq> 0)"
    by (simp add: word_less_nat_alt unat_and3)
  show ?thesis
    by (cases "(copy_word_step ^^ (unat sz div 4)) (m, dst, src)")
      (simp add: sf2000_memcpy_aligned_def Let_def for_u32_funpow w r unat_and3)
qed

text \<open>
  Claim C7. For every byte count, every source and destination address and every memory,
  \<open>sf2000_memcpy_burst\<close> leaves the memory exactly as \<open>sf2000_memcpy_aligned\<close> does on
  the same arguments (overlapping regions included).
\<close>

theorem burst_eq_aligned: "sf2000_memcpy_burst m dst src sz = sf2000_memcpy_aligned m dst src sz"
proof (cases "sz \<ge> SF2000_CACHE_LINE_SIZE \<and> dst AND 3 = 0 \<and> src AND 3 = 0")
  case False
  then show ?thesis by (auto simp: sf2000_memcpy_burst_def)
next
  case True
  define q where "q = unat sz div 32"
  define r where "r = unat sz mod 32"
  have uq: "unat (sz div SF2000_CACHE_LINE_SIZE) = q"
    by (simp add: SF2000_CACHE_LINE_SIZE_def unat_div q_def)
  have ur: "unat (sz mod SF2000_CACHE_LINE_SIZE) = r"
    by (simp add: SF2000_CACHE_LINE_SIZE_def unat_mod r_def)
  have rpos: "(sz mod SF2000_CACHE_LINE_SIZE > 0) = (r \<noteq> 0)"
    using ur by (simp add: word_less_nat_alt)
  obtain m1 d1 s1 where st: "(copy_word_step ^^ (8 * q)) (m, dst, src) = (m1, d1, s1)"
    by (cases "(copy_word_step ^^ (8 * q)) (m, dst, src)") auto
  have al: "d1 AND 3 = 0" "s1 AND 3 = 0"
    using copy_words_aligned [OF st] True by simp_all
  have loop: "for_u32 0 (sz div SF2000_CACHE_LINE_SIZE) (\<lambda>burst. burst_step) (m, dst, src) = (m1, d1, s1)"
    using st by (simp add: for_u32_funpow uq burst_step_eq funpow_mult)
  have split: "unat sz = 4 * (8 * q) + r"
    unfolding q_def r_def by simp
  have sz_div: "unat sz div 4 = r div 4 + 8 * q"
    by (simp only: split div_mult_self4)
  have sz_mod: "unat sz mod 4 = r mod 4"
    by (simp only: split mod_mult_self4)
  have whole: "(copy_word_step ^^ (unat sz div 4)) (m, dst, src) = (copy_word_step ^^ (r div 4)) (m1, d1, s1)"
    using st by (simp add: sz_div funpow_add)
  show ?thesis
  proof (cases "r = 0")
    case True
    then have "sf2000_memcpy_burst m dst src sz = m1"
      using \<open>sz \<ge> SF2000_CACHE_LINE_SIZE \<and> dst AND 3 = 0 \<and> src AND 3 = 0\<close>
      by (simp add: sf2000_memcpy_burst_def Let_def loop rpos)
    moreover have "sf2000_memcpy_aligned m dst src sz = m1"
      using \<open>sz \<ge> SF2000_CACHE_LINE_SIZE \<and> dst AND 3 = 0 \<and> src AND 3 = 0\<close> True
      by (simp add: memcpy_aligned_funpow whole sz_mod)
    ultimately show ?thesis by simp
  next
    case False
    then have "sf2000_memcpy_burst m dst src sz =
        sf2000_memcpy_aligned m1 d1 s1 (sz mod SF2000_CACHE_LINE_SIZE)"
      using \<open>sz \<ge> SF2000_CACHE_LINE_SIZE \<and> dst AND 3 = 0 \<and> src AND 3 = 0\<close>
      by (simp add: sf2000_memcpy_burst_def Let_def loop rpos)
    also have "\<dots> = fst ((copy_byte_step ^^ (r mod 4)) ((copy_word_step ^^ (r div 4)) (m1, d1, s1)))"
      by (simp add: memcpy_aligned_funpow al ur)
    also have "\<dots> = sf2000_memcpy_aligned m dst src sz"
      using \<open>sz \<ge> SF2000_CACHE_LINE_SIZE \<and> dst AND 3 = 0 \<and> src AND 3 = 0\<close>
      by (simp add: memcpy_aligned_funpow whole sz_mod)
    finally show ?thesis .
  qed
qed

subsection \<open>Allocation and release\<close>

lemma malloc_fast_from_hit:
  assumes "k < SF2000_POOL_COUNT" "i \<le> k" "pool_fits (ps ! k) sz"
    and "\<forall>j. i \<le> j \<and> j < k \<longrightarrow> \<not> pool_fits (ps ! j) sz"
    and "free_list (ps ! k) = Some fl" "unat (free_count (ps ! k)) \<le> length fl"
  shows "malloc_fast_from i ps h sz =
     Inr (pool_memory (ps ! k) + fl ! (unat (free_count (ps ! k)) - 1) * block_size (ps ! k),
          ps[k := (ps ! k)\<lparr>free_count := free_count (ps ! k) - 1\<rparr>], h)"
  using assms(2,4)
proof (induction "k - i" arbitrary: i)
  case 0
  then have ik: "i = k" by simp
  have pos: "0 < free_count (ps ! k)" using assms(3) by (simp add: pool_fits_def)
  then have u: "unat (free_count (ps ! k) - 1) = unat (free_count (ps ! k)) - 1"
    by unat_arith
  have "0 < unat (free_count (ps ! k))" using pos by (simp add: word_less_nat_alt)
  then have lt: "unat (free_count (ps ! k)) - 1 < length fl" using assms(6) by simp
  show ?case
    using assms(1,3,5) lt
    unfolding ik
    by (subst malloc_fast_from.simps) (simp add: pool_fits_def Let_def array_read_def u)
next
  case (Suc n)
  then have lt: "i < k" by simp
  then have nf: "\<not> pool_fits (ps ! i) sz" using Suc.prems by simp
  have "malloc_fast_from (i + 1) ps h sz =
     Inr (pool_memory (ps ! k) + fl ! (unat (free_count (ps ! k)) - 1) * block_size (ps ! k),
          ps[k := (ps ! k)\<lparr>free_count := free_count (ps ! k) - 1\<rparr>], h)"
    using Suc.hyps(2) lt Suc.prems by (intro Suc.hyps(1)) auto
  then show ?case
    using nf lt assms(1) by (auto simp: malloc_fast_from.simps [of i] pool_fits_def Let_def)
qed

lemma malloc_fast_from_miss:
  assumes "i \<le> SF2000_POOL_COUNT"
    and "\<forall>j. i \<le> j \<and> j < SF2000_POOL_COUNT \<longrightarrow> \<not> pool_fits (ps ! j) sz"
  shows "malloc_fast_from i ps h sz = Inr (fst (malloc sz h), ps, snd (malloc sz h))"
  using assms
proof (induction "SF2000_POOL_COUNT - i" arbitrary: i)
  case 0
  then have "\<not> i < SF2000_POOL_COUNT" by simp
  then show ?case
    by (subst malloc_fast_from.simps) (simp split: prod.splits)
next
  case (Suc n)
  then have lt: "i < SF2000_POOL_COUNT" by simp
  then have nf: "\<not> pool_fits (ps ! i) sz" using Suc.prems by simp
  have "malloc_fast_from (i + 1) ps h sz = Inr (fst (malloc sz h), ps, snd (malloc sz h))"
    using Suc.hyps(2) lt Suc.prems by (intro Suc.hyps(1)) auto
  then show ?case
    using nf lt by (auto simp: malloc_fast_from.simps [of i] pool_fits_def Let_def)
qed

lemma first_fit_exists:
  assumes "\<exists>k<n. P (k :: nat)"
  shows "\<exists>k<n. P k \<and> (\<forall>j<k. \<not> P j)"
proof -
  from assms obtain k0 where k0: "k0 < n" "P k0" by blast
  then have "\<exists>k. P k" by blast
  then obtain k where k: "P k" "\<forall>j<k. \<not> P j"
    unfolding exists_least_iff [of P] by blast
  have "\<not> k0 < k" using k(2) k0(2) by blast
  then have "k < n" using k0(1) by simp
  then show ?thesis using k by blast
qed

text \<open>
  The configured block sizes ascend strictly, so the array order in which
  \<open>sf2000_malloc_fast\<close> scans the pools is the order of ascending block size.
\<close>

lemma pool_sizes_ascending: "sorted_wrt (<) SF2000_POOL_SIZES"
  by (simp add: SF2000_POOL_SIZES_def)


text \<open>
  Claim C10. \<open>sf2000_memory_reset\<close> zeroes the ROM cache and the slot states and leaves
  the pools as they are, so that freeing and allocating behave after the reset as they
  would have before it.
\<close>

theorem reset_keeps_pools:
  "sf2000_memory_pools (sf2000_memory_reset s) = sf2000_memory_pools s \<and>
   sf2000_rom_cache (sf2000_memory_reset s) = replicate 16 zero_rom_info \<and>
   sf2000_slot_states (sf2000_memory_reset s) = replicate 4 zero_slot_state \<and>
   sf2000_free_fast (sf2000_memory_pools (sf2000_memory_reset s)) h ptr =
     sf2000_free_fast (sf2000_memory_pools s) h ptr \<and>
   sf2000_malloc_fast (sf2000_memory_pools (sf2000_memory_reset s)) h sz =
     sf2000_malloc_fast (sf2000_memory_pools s) h sz"
  by (simp add: sf2000_memory_reset_def)

lemma free_fast_from_full:
  assumes "k < SF2000_POOL_COUNT" "i \<le> k" "in_pool_span (ps ! k) ptr"
    and "\<forall>j. i \<le> j \<and> j < k \<longrightarrow> \<not> in_pool_span (ps ! j) ptr"
    and "free_count (ps ! k) = block_count (ps ! k)"
  shows "free_fast_from i ps h ptr = Inr (ps, h)"
  using assms(2,4)
proof (induction "k - i" arbitrary: i)
  case 0
  then have ik: "i = k" by simp
  have "block_size (ps ! k) \<noteq> 0"
    using assms(3) by (auto simp: in_pool_span_def)
  then show ?case
    using assms(1,3,5) unfolding ik
    by (subst free_fast_from.simps) (simp add: Let_def)
next
  case (Suc n)
  then have lt: "i < k" by simp
  then have nf: "\<not> in_pool_span (ps ! i) ptr" using Suc.prems by simp
  have "free_fast_from (i + 1) ps h ptr = Inr (ps, h)"
    using Suc.hyps(2) lt Suc.prems by (intro Suc.hyps(1)) auto
  then show ?case
    using nf lt assms(1) by (simp add: free_fast_from.simps [of i] Let_def)
qed

text \<open>
  Claim C5. \<open>sf2000_free_fast\<close> changes nothing, and reports no fault, when the pointer
  is null, and when the first pool whose span holds the pointer is already full
  (\<open>free_count = block_count\<close>).
\<close>

theorem free_defensive_cases:
  "sf2000_free_fast ps h 0 = Inr (ps, h) \<and>
   (\<forall>k. k < SF2000_POOL_COUNT \<and> in_pool_span (ps ! k) ptr \<and>
        (\<forall>j<k. \<not> in_pool_span (ps ! j) ptr) \<and>
        free_count (ps ! k) = block_count (ps ! k) \<longrightarrow>
        sf2000_free_fast ps h ptr = Inr (ps, h))"
proof (intro conjI allI impI)
  show "sf2000_free_fast ps h 0 = Inr (ps, h)"
    by (simp add: sf2000_free_fast_def)
next
  fix k
  assume a: "k < SF2000_POOL_COUNT \<and> in_pool_span (ps ! k) ptr \<and>
        (\<forall>j<k. \<not> in_pool_span (ps ! j) ptr) \<and>
        free_count (ps ! k) = block_count (ps ! k)"
  then have "free_fast_from 0 ps h ptr = Inr (ps, h)"
    by (intro free_fast_from_full [of k]) auto
  then show "sf2000_free_fast ps h ptr = Inr (ps, h)"
    by (simp add: sf2000_free_fast_def)
qed

subsection \<open>Initialization\<close>


lemma init_free_list_loop_aux:
  "unat n - unat i = k \<Longrightarrow> i \<le> n \<Longrightarrow> length xs = unat n \<Longrightarrow>
   for_u32 i n init_free_list_step (Inr (Some xs))
     = Inr (Some (take (unat i) xs @ map of_nat [unat i..<unat n]))"
proof (induction k arbitrary: i xs)
  case 0
  then have "\<not> i < n" and "unat i = unat n" by unat_arith+
  then show ?case using 0 by (simp add: for_u32.simps)
next
  case (Suc k)
  then have lt: "i < n" by unat_arith
  then have u: "unat (i + 1) = unat i + 1" by unat_arith
  have ul: "unat i < unat n" using lt by (simp add: word_less_nat_alt)
  have "unat n - unat (i + 1) = k" using Suc.prems u by simp
  moreover have "i + 1 \<le> n" using lt by unat_arith
  moreover have "length (xs[unat i := i]) = unat n" using Suc.prems by simp
  ultimately have ih: "for_u32 (i + 1) n init_free_list_step (Inr (Some (xs[unat i := i])))
     = Inr (Some (take (unat (i + 1)) (xs[unat i := i]) @ map of_nat [unat (i + 1)..<unat n]))"
    by (rule Suc.IH)
  have step: "init_free_list_step i (Inr (Some xs)) = Inr (Some (xs[unat i := i]))"
    using ul Suc.prems by (simp add: init_free_list_step_def array_write_def)
  have "take (unat i + 1) (xs[unat i := i]) = take (unat i) xs @ [i]"
    using ul Suc.prems by (simp add: take_Suc_conv_app_nth)
  moreover have "map of_nat [unat i..<unat n] = i # map of_nat [unat i + 1..<unat n]"
    using ul by (simp add: upt_conv_Cons)
  ultimately show ?case
    using lt ih step u by (simp add: for_u32.simps [of i])
qed

lemma init_free_list_loop:
  "for_u32 0 n init_free_list_step (Inr (Some (replicate (unat n) 0)))
     = Inr (Some (map of_nat [0..<unat n]))"
  using init_free_list_loop_aux [of n 0 "unat n" "replicate (unat n) 0"] by simp

lemma init_free_list_loop_null:
  "0 < n \<Longrightarrow> for_u32 0 n init_free_list_step (Inr None) = Inl NullDereference"
proof -
  have st: "init_free_list_step j (Inl e) = Inl e" for j e
    by (simp add: init_free_list_step_def)
  have st0: "init_free_list_step 0 (Inr None) = Inl NullDereference"
    by (simp add: init_free_list_step_def array_write_def)
  have inl: "for_u32 i n init_free_list_step (Inl e) = Inl e" if "unat n - unat i = k" for i k e
    using that
  proof (induction k arbitrary: i)
    case 0
    then have "\<not> i < n" by unat_arith
    then show ?case by (simp add: for_u32.simps)
  next
    case (Suc k)
    then have lt: "i < n" by unat_arith
    then have u: "unat (i + 1) = unat i + 1" by unat_arith
    have "unat n - unat (i + 1) = k" using Suc.prems u by simp
    then have "for_u32 (i + 1) n init_free_list_step (Inl e) = Inl e" by (rule Suc.IH)
    then show ?case using lt by (simp add: for_u32.simps [of i] st)
  qed
  assume "0 < n"
  then show ?thesis
    by (simp add: for_u32.simps [of 0] st0 inl)
qed

lemma pool_table_pos: "i < SF2000_POOL_COUNT \<Longrightarrow> 0 < blocks_per_pool ! i"
  by (simp add: SF2000_POOL_COUNT_def blocks_per_pool_def less_Suc_eq eval_nat_numeral)
    (elim disjE; simp)

lemma init_pool_ok:
  assumes "a \<noteq> 0" "b \<noteq> 0"
  shows "init_pool i pool \<lparr>malloc_answers = a # b # rest, sys_calls = cs\<rparr> =
     Inr (fresh_pool i a,
          \<lparr>malloc_answers = rest,
           sys_calls = cs @ [SysMalloc (SF2000_POOL_SIZES ! i * blocks_per_pool ! i + SF2000_CACHE_LINE_SIZE - 1),
                             SysMalloc (blocks_per_pool ! i * 4)]\<rparr>)"
  using assms
  by (simp add: init_pool_def malloc_def Let_def init_free_list_loop fresh_pool_def)

lemma init_pool_no_memory:
  "init_pool i pool \<lparr>malloc_answers = 0 # rest, sys_calls = cs\<rparr> =
     Inr (pool\<lparr>pool_memory := 0, block_size := SF2000_POOL_SIZES ! i,
              block_count := blocks_per_pool ! i, free_count := blocks_per_pool ! i\<rparr>,
          \<lparr>malloc_answers = rest,
           sys_calls = cs @ [SysMalloc (SF2000_POOL_SIZES ! i * blocks_per_pool ! i + SF2000_CACHE_LINE_SIZE - 1)]\<rparr>)"
  by (simp add: init_pool_def malloc_def Let_def)


lemma pools_init_from_ok:
  assumes "n = SF2000_POOL_COUNT - i" "i \<le> SF2000_POOL_COUNT" "length ps = SF2000_POOL_COUNT"
    and "2 * n \<le> length as" "\<forall>j<n. as ! (2 * j) \<noteq> 0 \<and> as ! (2 * j + 1) \<noteq> 0"
  shows "\<exists>h'. pools_init_from i ps \<lparr>malloc_answers = as, sys_calls = cs\<rparr> =
           Inr (take i ps @ map (\<lambda>k. fresh_pool k (as ! (2 * (k - i)))) [i..<SF2000_POOL_COUNT], h')
         \<and> malloc_answers h' = drop (2 * n) as"
  using assms
proof (induction n arbitrary: i ps as cs)
  case 0
  then have "i = SF2000_POOL_COUNT" by simp
  then show ?case using 0 by (simp add: pools_init_from.simps)
next
  case (Suc n)
  then have lt: "i < SF2000_POOL_COUNT" by simp
  from Suc.prems(4) obtain a b rest where as: "as = a # b # rest"
    by (cases as; cases "tl as") auto
  have ab: "a \<noteq> 0" "b \<noteq> 0" using Suc.prems(5) [rule_format, of 0] as by simp_all
  let ?h1 = "\<lparr>malloc_answers = rest,
           sys_calls = cs @ [SysMalloc (SF2000_POOL_SIZES ! i * blocks_per_pool ! i + SF2000_CACHE_LINE_SIZE - 1),
                             SysMalloc (blocks_per_pool ! i * 4)]\<rparr>"
  have rest_ok: "\<forall>j<n. rest ! (2 * j) \<noteq> 0 \<and> rest ! (2 * j + 1) \<noteq> 0"
  proof (intro allI impI)
    fix j assume "j < n"
    then have "as ! (2 * Suc j) \<noteq> 0 \<and> as ! (2 * Suc j + 1) \<noteq> 0"
      using Suc.prems(5) by auto
    then show "rest ! (2 * j) \<noteq> 0 \<and> rest ! (2 * j + 1) \<noteq> 0"
      by (simp add: as)
  qed
  have "\<exists>h'. pools_init_from (i + 1) (ps[i := fresh_pool i a]) ?h1 =
           Inr (take (i + 1) (ps[i := fresh_pool i a]) @
                map (\<lambda>k. fresh_pool k (rest ! (2 * (k - (i + 1))))) [i + 1..<SF2000_POOL_COUNT], h')
         \<and> malloc_answers h' = drop (2 * n) rest"
    using Suc.prems(1,2,3,4) lt rest_ok as
    by (intro Suc.IH) auto
  then obtain h' where h': "pools_init_from (i + 1) (ps[i := fresh_pool i a]) ?h1 =
           Inr (take (i + 1) (ps[i := fresh_pool i a]) @
                map (\<lambda>k. fresh_pool k (rest ! (2 * (k - (i + 1))))) [i + 1..<SF2000_POOL_COUNT], h')"
      "malloc_answers h' = drop (2 * n) rest"
    by blast
  have t: "take (i + 1) (ps[i := fresh_pool i a]) = take i ps @ [fresh_pool i a]"
    using lt Suc.prems(3) by (simp add: take_Suc_conv_app_nth)
  have m: "map (\<lambda>k. fresh_pool k (rest ! (2 * (k - (i + 1))))) [i + 1..<SF2000_POOL_COUNT]
      = map (\<lambda>k. fresh_pool k (as ! (2 * (k - i)))) [i + 1..<SF2000_POOL_COUNT]"
  proof (rule map_cong [OF refl])
    fix k assume "k \<in> set [i + 1..<SF2000_POOL_COUNT]"
    then have "k - i = Suc (k - (i + 1))" by auto
    then show "fresh_pool k (rest ! (2 * (k - (i + 1)))) = fresh_pool k (as ! (2 * (k - i)))"
      by (simp add: as)
  qed
  have final: "take (i + 1) (ps[i := fresh_pool i a]) @
        map (\<lambda>k. fresh_pool k (rest ! (2 * (k - (i + 1))))) [i + 1..<SF2000_POOL_COUNT]
      = take i ps @ map (\<lambda>k. fresh_pool k (as ! (2 * (k - i)))) [i..<SF2000_POOL_COUNT]"
    by (simp only: t m) (simp add: upt_conv_Cons lt as)
  have "pools_init_from i ps \<lparr>malloc_answers = as, sys_calls = cs\<rparr> =
      pools_init_from (i + 1) (ps[i := fresh_pool i a]) ?h1"
    using lt ab by (subst pools_init_from.simps) (simp add: as init_pool_ok)
  then show ?case
    using h' by (simp only: final) (simp add: as)
qed

text \<open>
  Claim C1. A pool whose backing storage could not be reserved must be skipped by
  \<open>sf2000_malloc_fast\<close>. The code does not skip it: after an initialization in which
  the reservation for the 32-byte pool failed, that pool has a null base, a null free
  list and \<open>free_count = 256\<close>, and a request for 16 bytes selects it and reads
  \<open>free_list[255]\<close> through the null pointer.
\<close>

theorem malloc_fast_selects_unusable_pool:
  "(case sf2000_memory_pools_init zero_pools failed_boot_heap of
      Inl e \<Rightarrow> False
    | Inr (ps, h) \<Rightarrow>
        pool_memory (ps ! 0) = 0 \<and> free_list (ps ! 0) = None \<and>
        sf2000_malloc_fast ps h 16 = Inl NullDereference)"
  by code_simp

subsection \<open>The example start\<close>


lemma all_less_8:
  "(\<forall>j<8. P j) \<longleftrightarrow> P (0 :: nat) \<and> P 1 \<and> P 2 \<and> P 3 \<and> P 4 \<and> P 5 \<and> P 6 \<and> P 7"
proof -
  have "{..<8 :: nat} = {0, 1, 2, 3, 4, 5, 6, 7}" by auto
  then have "(\<forall>j\<in>{..<8}. P j) \<longleftrightarrow> P 0 \<and> P 1 \<and> P 2 \<and> P 3 \<and> P 4 \<and> P 5 \<and> P 6 \<and> P 7"
    by (simp only: ball_simps) simp
  then show ?thesis by (simp only: Ball_def lessThan_iff)
qed

lemma boot_pools_init:
  "\<exists>h. sf2000_memory_pools_init zero_pools boot_heap = Inr (boot_pools, h) \<and>
       malloc_answers h = [0x200000]"
proof -
  have len: "length boot_answers = 16"
    by (simp add: boot_answers_def)
  have nz: "\<forall>j<8. (boot_answers @ [0x200000]) ! (2 * j) \<noteq> 0 \<and> (boot_answers @ [0x200000]) ! (2 * j + 1) \<noteq> 0"
    by (simp add: all_less_8 boot_answers_def)
  have "\<exists>h'. pools_init_from 0 zero_pools \<lparr>malloc_answers = boot_answers @ [0x200000], sys_calls = []\<rparr> =
           Inr (take 0 zero_pools @
                map (\<lambda>k. fresh_pool k ((boot_answers @ [0x200000]) ! (2 * (k - 0)))) [0..<SF2000_POOL_COUNT], h')
         \<and> malloc_answers h' = drop (2 * 8) (boot_answers @ [0x200000])"
    using nz by (intro pools_init_from_ok) (simp_all add: SF2000_POOL_COUNT_def zero_pools_def boot_answers_def)
  moreover have "map (\<lambda>k. fresh_pool k ((boot_answers @ [0x200000]) ! (2 * (k - 0)))) [0..<SF2000_POOL_COUNT]
      = boot_pools"
    unfolding boot_pools_def
    using len by (intro map_cong [OF refl]) (simp add: SF2000_POOL_COUNT_def nth_append)
  ultimately show ?thesis
    by (simp add: sf2000_memory_pools_init_def boot_heap_def boot_answers_def)
qed

lemma boot_pools_nth:
  "k < SF2000_POOL_COUNT \<Longrightarrow> boot_pools ! k = fresh_pool k (boot_answers ! (2 * k))"
  by (simp add: boot_pools_def)



lemma boot_pool0: "boot_pools ! 0 = \<lparr>pool_memory = 0x10000, block_size = 32, block_count = 256,
   free_count = 256, free_list = Some (map of_nat [0..<256])\<rparr>"
  by (simp add: boot_pools_nth SF2000_POOL_COUNT_def fresh_pool_def boot_answers_def
      SF2000_POOL_SIZES_def blocks_per_pool_def SF2000_CACHE_LINE_SIZE_def)

subsection \<open>Example runs\<close>


text \<open>Freeing a pointer into the 32-byte pool while that pool is full changes nothing.\<close>

theorem free_defensive_cases_witness:
  "sf2000_free_fast boot_pools run_heap 0x10020 = Inr (boot_pools, run_heap)"
proof -
  have "in_pool_span (boot_pools ! 0) 0x10020"
    by (simp add: boot_pool0 in_pool_span_def)
  moreover have "free_count (boot_pools ! 0) = block_count (boot_pools ! 0)"
    by (simp add: boot_pool0)
  ultimately have "0 < SF2000_POOL_COUNT \<and> in_pool_span (boot_pools ! 0) 0x10020 \<and>
      (\<forall>j<0. \<not> in_pool_span (boot_pools ! j) 0x10020) \<and>
      free_count (boot_pools ! 0) = block_count (boot_pools ! 0)"
    by (simp add: SF2000_POOL_COUNT_def)
  then show ?thesis
    by (rule free_defensive_cases [of boot_pools run_heap "0x10020", THEN conjunct2, rule_format])
qed

subsection \<open>Alignment\<close>

lemma and_not_31: "(x::u32) AND NOT 31 = push_bit 5 (drop_bit 5 x)"
proof -
  have m: "(31::u32) = mask 5" by (simp add: mask_eq_exp_minus_1)
  show ?thesis
    unfolding m by (rule bit_word_eqI) (auto simp: bit_simps)
qed

lemma unat_and_not_31: "unat ((x::u32) AND NOT 31) = 32 * (unat x div 32)"
proof -
  have d: "unat (x div 32) = unat x div 32"
    by (simp add: unat_div)
  have "32 * (unat x div 32) \<le> unat x" by simp
  moreover have "unat x < 2 ^ 32" using unsigned_less [of x] by simp
  ultimately have "unat (x div 32) * unat (32 :: u32) < 2 ^ LENGTH(32)"
    by (simp add: d)
  then have "unat (x div 32 * 32) = unat (x div 32) * unat (32 :: u32)"
    by (simp only: unat_mult_lem)
  then show ?thesis
    by (simp only: and_not_31) (simp add: push_bit_eq_mult drop_bit_eq_div d)
qed

lemma unat_and_minus_32: "unat ((x::u32) AND - 32) = 32 * (unat x div 32)"
proof -
  have "(- 32 :: u32) = NOT 31" by simp
  then show ?thesis by (simp only: unat_and_not_31)
qed

lemma unat_align_up_le: "unat (align_up p) \<le> unat p + 31"
proof -
  have "unat (align_up p) \<le> unat (p + 31)"
    by (simp add: align_up_def SF2000_CACHE_LINE_SIZE_def unat_and_minus_32 add.commute)
  also have "\<dots> \<le> unat p + 31"
    by (simp add: unat_word_ariths)
  finally show ?thesis .
qed

lemma unat_align_up:
  assumes "unat p + 31 < 2 ^ 32"
  shows "unat (align_up p) = 32 * ((unat p + 31) div 32)"
proof -
  have "unat (p + 31) = unat p + 31"
    using assms by (simp add: unat_word_ariths)
  then show ?thesis
    by (simp add: align_up_def SF2000_CACHE_LINE_SIZE_def unat_and_minus_32 add.commute)
qed

lemma unat_align_up_ge:
  assumes "unat p + 31 < 2 ^ 32"
  shows "unat p \<le> unat (align_up p)"
  unfolding unat_align_up [OF assms] by presburger

lemma align_up_dvd: "32 dvd unat (align_up p)"
  by (simp add: align_up_def SF2000_CACHE_LINE_SIZE_def unat_and_minus_32 add.commute)

subsection \<open>Reading a file into memory\<close>

lemma unat_lt_u32: "unat (w::u32) < 2 ^ 32"
  using unsigned_less [of w] by simp

lemma unat_of_nat_u32_num: "k < 4294967296 \<Longrightarrow> unat (of_nat k :: u32) = k"
  by (simp add: unat_of_nat)

lemma unat_of_nat_u32: "k < 2 ^ 32 \<Longrightarrow> unat (of_nat k :: u32) = k"
  by (rule unat_of_nat_u32_num) simp

lemma unat_offset: "unat p + k < 2 ^ 32 \<Longrightarrow> unat ((p::u32) + of_nat k) = unat p + k"
proof -
  assume a: "unat p + k < 2 ^ 32"
  then have "k < 2 ^ 32" by simp
  then have "unat (of_nat k :: u32) = k"
    by (rule unat_of_nat_u32)
  then show ?thesis using a by (simp add: unat_word_ariths)
qed

lemma of_nat_inj_u32:
  assumes "i < 2 ^ 32" "j < 2 ^ 32"
  shows "(of_nat i :: u32) = of_nat j \<longleftrightarrow> i = j"
proof
  assume "(of_nat i :: u32) = of_nat j"
  then have "unat (of_nat i :: u32) = unat (of_nat j :: u32)"
    by (rule arg_cong)
  then show "i = j"
    by (simp only: unat_of_nat_u32 [OF assms(1)] unat_of_nat_u32 [OF assms(2)])
next
  assume "i = j"
  then show "(of_nat i :: u32) = of_nat j" by (rule arg_cong)
qed

lemma write_bytes_append:
  "write_bytes m p (xs @ ys) = write_bytes (write_bytes m p xs) (p + of_nat (length xs)) ys"
  by (induction xs arbitrary: m p) (simp_all add: algebra_simps)

lemma write_bytes_outside:
  "(\<forall>j<length bs. a \<noteq> p + of_nat j) \<Longrightarrow> write_bytes m p bs a = m a"
proof (induction bs arbitrary: m p)
  case Nil
  then show ?case by simp
next
  case (Cons b bs)
  have "\<forall>j<length bs. a \<noteq> (p + 1) + of_nat j"
  proof (intro allI impI)
    fix j assume "j < length bs"
    then have "a \<noteq> p + of_nat (Suc j)" using Cons.prems by auto
    then show "a \<noteq> (p + 1) + of_nat j" by (simp add: algebra_simps)
  qed
  then have "write_bytes (m(p := b)) (p + 1) bs a = (m(p := b)) a"
    by (rule Cons.IH)
  moreover have "a \<noteq> p" using Cons.prems [rule_format, of 0] by simp
  ultimately show ?case by simp
qed

lemma write_bytes_nth:
  "length bs \<le> 2 ^ 32 \<Longrightarrow> i < length bs \<Longrightarrow> write_bytes m p bs (p + of_nat i) = bs ! i"
proof (induction bs arbitrary: m p i)
  case Nil
  then show ?case by simp
next
  case (Cons b bs)
  show ?case
  proof (cases i)
    case 0
    have "\<forall>j<length bs. p \<noteq> (p + 1) + of_nat j"
    proof (intro allI impI)
      fix j assume "j < length bs"
      then have "Suc j < 2 ^ 32" using Cons.prems(1) by simp
      then have "(of_nat (Suc j) :: u32) \<noteq> of_nat 0"
        by (subst of_nat_inj_u32) simp_all
      then show "p \<noteq> (p + 1) + of_nat j" by (simp add: algebra_simps)
    qed
    then have "write_bytes (m(p := b)) (p + 1) bs p = (m(p := b)) p"
      by (rule write_bytes_outside)
    then show ?thesis using 0 by simp
  next
    case (Suc k)
    have "write_bytes (m(p := b)) (p + 1) bs ((p + 1) + of_nat k) = bs ! k"
      using Cons.prems Suc by (intro Cons.IH) simp_all
    then show ?thesis using Suc by (simp add: algebra_simps)
  qed
qed

lemma unat_next_to_read:
  "bytes_read < file_size \<Longrightarrow>
   unat (next_to_read file_size bytes_read) = min (unat file_size - unat bytes_read) 8192"
  unfolding next_to_read_def chunk_size_def
  by (simp split: if_splits add: word_less_nat_alt unat_sub word_le_nat_alt min_def)

lemma fread_eq:
  "fread f pos m wp n =
     (of_nat (min (unat n) (length (file_bytes f) - pos)),
      write_bytes m wp (take (unat n) (drop pos (file_bytes f))))"
  by (simp add: fread_def Let_def min.commute)

lemma read_loop_complete:
  "unat file_size \<le> length (file_bytes f) \<Longrightarrow> bytes_read \<le> file_size \<Longrightarrow>
   read_loop f file_size m bytes_read write_ptr =
     (True, write_bytes m write_ptr
              (take (unat file_size - unat bytes_read) (drop (unat bytes_read) (file_bytes f))))"
proof (induction f file_size m bytes_read write_ptr rule: read_loop.induct)
  case (1 f file_size m bytes_read write_ptr)
  show ?case
  proof (cases "bytes_read < file_size")
    case False
    then have "unat file_size - unat bytes_read = 0"
      by (simp add: word_less_nat_alt)
    then show ?thesis using False by (simp add: read_loop.simps [of f file_size m bytes_read])
  next
    case True
    define n where "n = next_to_read file_size bytes_read"
    define B where "B = unat bytes_read"
    have un: "unat n = min (unat file_size - B) 8192"
      unfolding n_def B_def using True by (rule unat_next_to_read)
    have lt: "B < unat file_size" using True by (simp add: B_def word_less_nat_alt)
    have avail: "unat n \<le> length (file_bytes f) - B"
      using un "1.prems"(1) by simp
    have full: "fst (fread f B m write_ptr n) = n"
      using avail by (simp add: fread_eq min_absorb1)
    have mem: "snd (fread f B m write_ptr n) = write_bytes m write_ptr (take (unat n) (drop B (file_bytes f)))"
      by (simp add: fread_eq)
    have ub: "unat (bytes_read + n) = B + unat n"
    proof -
      have "unat file_size < 2 ^ 32" by (rule unat_lt_u32)
      then have "unat bytes_read + unat n < 2 ^ LENGTH(32)" using un lt by (simp add: B_def)
      then show ?thesis by (simp only: unat_add_lem B_def)
    qed
    have le: "bytes_read + n \<le> file_size"
      using ub un lt by (simp add: word_le_nat_alt)
    have ih: "read_loop f file_size (snd (fread f B m write_ptr n)) (bytes_read + n) (write_ptr + n) =
        (True, write_bytes (snd (fread f B m write_ptr n)) (write_ptr + n)
                 (take (unat file_size - unat (bytes_read + n)) (drop (unat (bytes_read + n)) (file_bytes f))))"
      using "1.IH" [OF True] full "1.prems"(1) le unfolding n_def B_def by simp
    have len: "length (take (unat n) (drop B (file_bytes f))) = unat n"
      using avail by simp
    have split: "take (unat file_size - B) (drop B (file_bytes f)) =
        take (unat n) (drop B (file_bytes f)) @
        take (unat file_size - (B + unat n)) (drop (B + unat n) (file_bytes f))"
    proof -
      have e: "unat file_size - B = unat n + (unat file_size - (B + unat n))"
        using un lt by simp
      show ?thesis
        by (subst e) (simp add: take_add add.commute)
    qed
    have "read_loop f file_size m bytes_read write_ptr =
        read_loop f file_size (snd (fread f B m write_ptr n)) (bytes_read + n) (write_ptr + n)"
      using True full unfolding n_def B_def
      by (subst read_loop.simps) simp
    moreover have "write_bytes m write_ptr
          (take (unat n) (drop B (file_bytes f)) @
           take (unat file_size - (B + unat n)) (drop (B + unat n) (file_bytes f)))
        = write_bytes (write_bytes m write_ptr (take (unat n) (drop B (file_bytes f)))) (write_ptr + n)
           (take (unat file_size - (B + unat n)) (drop (B + unat n) (file_bytes f)))"
      by (simp only: write_bytes_append len) simp
    ultimately show ?thesis
      using ih by (simp only: mem ub split B_def [symmetric])
  qed
qed

lemma read_loop_short:
  "length (file_bytes f) < unat file_size \<Longrightarrow> unat bytes_read \<le> length (file_bytes f) \<Longrightarrow>
   fst (read_loop f file_size m bytes_read write_ptr) = False"
proof (induction f file_size m bytes_read write_ptr rule: read_loop.induct)
  case (1 f file_size m bytes_read write_ptr)
  define n where "n = next_to_read file_size bytes_read"
  define B where "B = unat bytes_read"
  have lt: "B < unat file_size" using "1.prems" by (simp add: B_def)
  then have True: "bytes_read < file_size" by (simp add: B_def word_less_nat_alt)
  have un: "unat n = min (unat file_size - B) 8192"
    unfolding n_def B_def using True by (rule unat_next_to_read)
  show ?case
  proof (cases "fst (fread f B m write_ptr n) = n")
    case False
    then show ?thesis
      using True unfolding n_def B_def by (subst read_loop.simps) simp
  next
    case full: True
    have "unat (fst (fread f B m write_ptr n)) = min (unat n) (length (file_bytes f) - B)"
    proof -
      have "min (unat n) (length (file_bytes f) - B) \<le> unat n" by simp
      also have "\<dots> < 2 ^ 32" by (rule unat_lt_u32)
      finally show ?thesis
        by (simp add: fread_eq unat_of_nat_u32)
    qed
    then have avail: "unat n \<le> length (file_bytes f) - B"
      using full by simp
    have ub: "unat (bytes_read + n) = B + unat n"
    proof -
      have "unat file_size < 2 ^ 32" by (rule unat_lt_u32)
      then have "unat bytes_read + unat n < 2 ^ LENGTH(32)" using un lt by (simp add: B_def)
      then show ?thesis by (simp only: unat_add_lem B_def)
    qed
    have npos: "0 < unat n" using un lt by simp
    have "unat (bytes_read + n) \<le> length (file_bytes f)"
      using ub avail npos by simp
    then have "fst (read_loop f file_size (snd (fread f B m write_ptr n)) (bytes_read + n) (write_ptr + n)) = False"
      using "1.IH" [OF True] full "1.prems"(1) unfolding n_def B_def by simp
    moreover have "read_loop f file_size m bytes_read write_ptr =
        read_loop f file_size (snd (fread f B m write_ptr n)) (bytes_read + n) (write_ptr + n)"
      using True full unfolding n_def B_def
      by (subst read_loop.simps) simp
    ultimately show ?thesis by simp
  qed
qed

subsection \<open>The loader\<close>

lemma unat_file_size:
  assumes "0 < L" "L \<le> SF2000_MAX_ROM_SIZE"
  shows "unat (word_of_int L :: u32) = nat L"
proof -
  have "nat L < 4294967296" using assms by (simp add: SF2000_MAX_ROM_SIZE_def)
  then have "unat (of_nat (nat L) :: u32) = nat L" by (rule unat_of_nat_u32_num)
  moreover have "(of_nat (nat L) :: u32) = word_of_int L"
    using assms(1) by (simp add: of_nat_nat)
  ultimately show ?thesis by simp
qed

lemma load_read_complete:
  assumes "0 < L" "L \<le> SF2000_MAX_ROM_SIZE" "nat L \<le> length (file_bytes f)"
  shows "read_loop f (word_of_int L) m 0 wp = (True, write_bytes m wp (take (nat L) (file_bytes f)))"
  using read_loop_complete [of "word_of_int L" f 0 m wp] assms
  by (simp add: unat_file_size)

lemma load_read_short:
  assumes "0 < L" "L \<le> SF2000_MAX_ROM_SIZE" "length (file_bytes f) < nat L"
  shows "fst (read_loop f (word_of_int L) m 0 wp) = False"
  using read_loop_short [of f "word_of_int L" 0 m wp] assms
  by (simp add: unat_file_size)

lemma loaded_bytes:
  assumes "0 < L" "L \<le> SF2000_MAX_ROM_SIZE" "nat L \<le> length (file_bytes f)" "i < nat L"
  shows "write_bytes m wp (take (nat L) (file_bytes f)) (wp + of_nat i) = file_bytes f ! i"
proof -
  have "length (take (nat L) (file_bytes f)) = nat L" using assms(3) by simp
  moreover have "nat L \<le> 2 ^ 32" using assms(2) by (simp add: SF2000_MAX_ROM_SIZE_def)
  ultimately have "write_bytes m wp (take (nat L) (file_bytes f)) (wp + of_nat i)
      = take (nat L) (file_bytes f) ! i"
    using assms(4) by (intro write_bytes_nth) simp_all
  then show ?thesis using assms(4) by simp
qed

text \<open>The definition of the loader with the rounding folded into \<open>align_up\<close>.\<close>

lemmas load_def = sf2000_rom_load_optimized_def [unfolded align_up_def [symmetric]]

text \<open>
  Claim C8, amended. \<open>sf2000_rom_load_optimized\<close> returns the failure sentinel (null
  pointer, size 0) when the file cannot be opened, when its length is \<open>\<le> 0\<close> or above
  2 MiB, when \<open>sf2000_malloc_fast\<close> returns null for the \<open>length + 32\<close> bytes, and when
  a chunk read comes back short, which in the model is when the file delivers fewer
  bytes than its length; in the last case the buffer has been given to
  \<open>sf2000_free_fast\<close> before. Otherwise it returns the aligned buffer and the file
  length \<open>L\<close>, and the first \<open>L\<close> bytes at the returned pointer are the bytes of the
  file. It returns the sentinel in no other case.
\<close>

theorem rom_load_outcomes:
  "(fopen fs filename = None \<longrightarrow>
      sf2000_rom_load_optimized fs filename ps h m = Inr (0, 0, ps, h, m)) \<and>
   (\<forall>f. fopen fs filename = Some f \<and> (file_length f \<le> 0 \<or> file_length f > SF2000_MAX_ROM_SIZE) \<longrightarrow>
      sf2000_rom_load_optimized fs filename ps h m = Inr (0, 0, ps, h, m)) \<and>
   (\<forall>f ps1 h1. fopen fs filename = Some f \<and> 0 < file_length f \<and> file_length f \<le> SF2000_MAX_ROM_SIZE \<and>
      sf2000_malloc_fast ps h (word_of_int (file_length f + 32)) = Inr (0, ps1, h1) \<longrightarrow>
      sf2000_rom_load_optimized fs filename ps h m = Inr (0, 0, ps1, h1, m)) \<and>
   (\<forall>f b ps1 h1 ps2 h2. fopen fs filename = Some f \<and> 0 < file_length f \<and>
      file_length f \<le> SF2000_MAX_ROM_SIZE \<and>
      sf2000_malloc_fast ps h (word_of_int (file_length f + 32)) = Inr (b, ps1, h1) \<and> b \<noteq> 0 \<and>
      length (file_bytes f) < nat (file_length f) \<and>
      sf2000_free_fast ps1 h1 b = Inr (ps2, h2) \<longrightarrow>
      (\<exists>m'. sf2000_rom_load_optimized fs filename ps h m = Inr (0, 0, ps2, h2, m'))) \<and>
   (\<forall>f b ps1 h1. fopen fs filename = Some f \<and> 0 < file_length f \<and>
      file_length f \<le> SF2000_MAX_ROM_SIZE \<and>
      sf2000_malloc_fast ps h (word_of_int (file_length f + 32)) = Inr (b, ps1, h1) \<and> b \<noteq> 0 \<and>
      nat (file_length f) \<le> length (file_bytes f) \<longrightarrow>
      (\<exists>m'. sf2000_rom_load_optimized fs filename ps h m =
              Inr (align_up b, file_length f, ps1, h1, m') \<and>
            (\<forall>i<nat (file_length f). m' (align_up b + of_nat i) = file_bytes f ! i))) \<and>
   (\<forall>buf sz ps' h' m'. sf2000_rom_load_optimized fs filename ps h m = Inr (buf, sz, ps', h', m') \<longrightarrow>
      ((buf = 0 \<and> sz = 0) \<longleftrightarrow>
         (fopen fs filename = None \<or>
          (\<exists>f. fopen fs filename = Some f \<and>
             (file_length f \<le> 0 \<or> file_length f > SF2000_MAX_ROM_SIZE \<or>
              (\<exists>ps1 h1. sf2000_malloc_fast ps h (word_of_int (file_length f + 32)) = Inr (0, ps1, h1)) \<or>
              length (file_bytes f) < nat (file_length f))))))"
proof (intro conjI allI impI)
  assume "fopen fs filename = None"
  then show "sf2000_rom_load_optimized fs filename ps h m = Inr (0, 0, ps, h, m)"
    by (simp add: sf2000_rom_load_optimized_def)
next
  fix f
  assume "fopen fs filename = Some f \<and> (file_length f \<le> 0 \<or> file_length f > SF2000_MAX_ROM_SIZE)"
  then show "sf2000_rom_load_optimized fs filename ps h m = Inr (0, 0, ps, h, m)"
    by (auto simp: sf2000_rom_load_optimized_def Let_def)
next
  fix f ps1 h1
  assume "fopen fs filename = Some f \<and> 0 < file_length f \<and> file_length f \<le> SF2000_MAX_ROM_SIZE \<and>
      sf2000_malloc_fast ps h (word_of_int (file_length f + 32)) = Inr (0, ps1, h1)"
  then show "sf2000_rom_load_optimized fs filename ps h m = Inr (0, 0, ps1, h1, m)"
    by (simp add: load_def Let_def SF2000_CACHE_LINE_SIZE_def)
next
  fix f b ps1 h1 ps2 h2
  assume a: "fopen fs filename = Some f \<and> 0 < file_length f \<and>
      file_length f \<le> SF2000_MAX_ROM_SIZE \<and>
      sf2000_malloc_fast ps h (word_of_int (file_length f + 32)) = Inr (b, ps1, h1) \<and> b \<noteq> 0 \<and>
      length (file_bytes f) < nat (file_length f) \<and>
      sf2000_free_fast ps1 h1 b = Inr (ps2, h2)"
  then have "fst (read_loop f (word_of_int (file_length f)) m 0 (align_up b)) = False"
    by (intro load_read_short) simp_all
  then obtain m' where "read_loop f (word_of_int (file_length f)) m 0 (align_up b) = (False, m')"
    by (cases "read_loop f (word_of_int (file_length f)) m 0 (align_up b)") auto
  then have "sf2000_rom_load_optimized fs filename ps h m = Inr (0, 0, ps2, h2, m')"
    using a by (simp add: load_def Let_def SF2000_CACHE_LINE_SIZE_def)
  then show "\<exists>m'. sf2000_rom_load_optimized fs filename ps h m = Inr (0, 0, ps2, h2, m')"
    by blast
next
  fix f b ps1 h1
  assume a: "fopen fs filename = Some f \<and> 0 < file_length f \<and>
      file_length f \<le> SF2000_MAX_ROM_SIZE \<and>
      sf2000_malloc_fast ps h (word_of_int (file_length f + 32)) = Inr (b, ps1, h1) \<and> b \<noteq> 0 \<and>
      nat (file_length f) \<le> length (file_bytes f)"
  let ?m' = "write_bytes m (align_up b) (take (nat (file_length f)) (file_bytes f))"
  have "read_loop f (word_of_int (file_length f)) m 0 (align_up b) = (True, ?m')"
    using a by (intro load_read_complete) simp_all
  then have "sf2000_rom_load_optimized fs filename ps h m =
      Inr (align_up b, file_length f, ps1, h1, ?m')"
    using a by (simp add: load_def Let_def SF2000_CACHE_LINE_SIZE_def)
  moreover have "\<forall>i<nat (file_length f). ?m' (align_up b + of_nat i) = file_bytes f ! i"
    using a by (intro allI impI loaded_bytes) simp_all
  ultimately show "\<exists>m'. sf2000_rom_load_optimized fs filename ps h m =
              Inr (align_up b, file_length f, ps1, h1, m') \<and>
            (\<forall>i<nat (file_length f). m' (align_up b + of_nat i) = file_bytes f ! i)"
    by blast
next
  fix buf sz ps' h' m'
  assume r: "sf2000_rom_load_optimized fs filename ps h m = Inr (buf, sz, ps', h', m')"
  show "(buf = 0 \<and> sz = 0) \<longleftrightarrow>
         (fopen fs filename = None \<or>
          (\<exists>f. fopen fs filename = Some f \<and>
             (file_length f \<le> 0 \<or> file_length f > SF2000_MAX_ROM_SIZE \<or>
              (\<exists>ps1 h1. sf2000_malloc_fast ps h (word_of_int (file_length f + 32)) = Inr (0, ps1, h1)) \<or>
              length (file_bytes f) < nat (file_length f))))"
  proof (cases "fopen fs filename")
    case None
    then show ?thesis using r by (simp add: sf2000_rom_load_optimized_def)
  next
    case (Some f)
    show ?thesis
    proof (cases "file_length f \<le> 0 \<or> file_length f > SF2000_MAX_ROM_SIZE")
      case True
      then show ?thesis using r Some by (auto simp: sf2000_rom_load_optimized_def Let_def)
    next
      case False
      then have L: "0 < file_length f" "file_length f \<le> SF2000_MAX_ROM_SIZE" by simp_all
      from r Some False obtain b ps1 h1 where
        al: "sf2000_malloc_fast ps h (word_of_int (file_length f + 32)) = Inr (b, ps1, h1)"
        by (auto simp: load_def Let_def SF2000_CACHE_LINE_SIZE_def
            split: sum.splits)
      show ?thesis
      proof (cases "b = 0")
        case True
        then show ?thesis
          using r Some False al
          by (auto simp: load_def Let_def SF2000_CACHE_LINE_SIZE_def)
      next
        case bnz: False
        show ?thesis
        proof (cases "length (file_bytes f) < nat (file_length f)")
          case True
          then have "fst (read_loop f (word_of_int (file_length f)) m 0 (align_up b)) = False"
            using L by (intro load_read_short) simp_all
          then have "buf = 0 \<and> sz = 0"
            using r Some False al bnz
            by (auto simp: load_def Let_def SF2000_CACHE_LINE_SIZE_def
                split: sum.splits prod.splits)
          then show ?thesis using Some True by simp
        next
          case enough: False
          then have "read_loop f (word_of_int (file_length f)) m 0 (align_up b) =
              (True, write_bytes m (align_up b) (take (nat (file_length f)) (file_bytes f)))"
            using L by (intro load_read_complete) simp_all
          then have "sz = file_length f"
            using r Some False al bnz
            by (simp add: load_def Let_def SF2000_CACHE_LINE_SIZE_def)
          then show ?thesis using Some False al bnz enough L by auto
        qed
      qed
    qed
  qed
qed

text \<open>
  Claim C9. When \<open>sf2000_rom_load_optimized\<close> succeeds on a file of length \<open>L\<close> (it
  stores \<open>L \<noteq> 0\<close> to \<open>*size\<close>), it has asked \<open>sf2000_malloc_fast\<close> for exactly
  \<open>L + 32\<close> bytes and got a non-null pointer \<open>b\<close>; the pointer it returns is \<open>b\<close>
  rounded up to a multiple of 32, at most 31 bytes beyond \<open>b\<close>, so that the returned
  pointer plus \<open>L\<close> stays within \<open>b + L + 32\<close>; and it is not below \<open>b\<close> when the
  allocation of \<open>L + 32\<close> bytes at \<open>b\<close> lies inside the 32-bit address space.
\<close>

theorem rom_load_alignment:
  assumes "sf2000_rom_load_optimized fs filename ps h m = Inr (buf, sz, ps', h', m')" and "sz \<noteq> 0"
  shows "\<exists>f b. fopen fs filename = Some f \<and> sz = file_length f \<and> 0 < sz \<and> sz \<le> SF2000_MAX_ROM_SIZE \<and>
     sf2000_malloc_fast ps h (word_of_int (sz + 32)) = Inr (b, ps', h') \<and>
     uint (word_of_int (sz + 32) :: u32) = sz + 32 \<and> b \<noteq> 0 \<and>
     buf = (b + SF2000_CACHE_LINE_SIZE - 1) AND NOT (SF2000_CACHE_LINE_SIZE - 1) \<and>
     32 dvd unat buf \<and>
     unat buf \<le> unat b + 31 \<and>
     unat buf + nat sz \<le> unat b + nat sz + 32 \<and>
     (unat b + nat sz + 32 \<le> 2 ^ 32 \<longrightarrow> unat b \<le> unat buf)"
proof -
  from assms obtain f where f: "fopen fs filename = Some f"
    by (cases "fopen fs filename") (auto simp: sf2000_rom_load_optimized_def)
  have L: "0 < file_length f" "file_length f \<le> SF2000_MAX_ROM_SIZE"
    using assms f by (auto simp: sf2000_rom_load_optimized_def Let_def split: if_splits)
  from assms f L obtain b ps1 h1 where
    al: "sf2000_malloc_fast ps h (word_of_int (file_length f + 32)) = Inr (b, ps1, h1)"
    by (auto simp: load_def Let_def SF2000_CACHE_LINE_SIZE_def split: sum.splits)
  have bnz: "b \<noteq> 0"
    using assms f L al by (auto simp: load_def Let_def SF2000_CACHE_LINE_SIZE_def)
  have res: "buf = align_up b \<and> sz = file_length f \<and> ps' = ps1 \<and> h' = h1"
    using assms f L al bnz
    by (auto simp: load_def Let_def SF2000_CACHE_LINE_SIZE_def split: sum.splits prod.splits if_splits)
  have "0 \<le> sz + 32" "sz + 32 < 2 ^ LENGTH(32)"
    using res L by (simp_all add: SF2000_MAX_ROM_SIZE_def)
  then have u: "uint (word_of_int (sz + 32) :: u32) = sz + 32"
    by (simp only: uint_word_of_int_eq take_bit_int_eq_self)
  have ge: "unat b \<le> unat (align_up b)" if "unat b + nat sz + 32 \<le> 2 ^ 32"
    using that by (intro unat_align_up_ge) simp
  show ?thesis
    using f L al bnz res u unat_align_up_le [of b] align_up_dvd [of b] ge
    by (intro exI [of _ f] exI [of _ b]) (simp add: align_up_def)
qed

text \<open>Loading the three-byte file on the freshly initialized pools.\<close>

lemma tiny_rom_loaded:
  "\<exists>ps' h' m'. sf2000_rom_load_optimized rom_fs ''tiny.rom'' boot_pools run_heap zero_memory =
     Inr (0x14FC0, 3, ps', h', m')"
proof -
  have "case sf2000_rom_load_optimized rom_fs ''tiny.rom'' boot_pools run_heap zero_memory of
          Inl e \<Rightarrow> False
        | Inr (buf, sz, ps', h', m') \<Rightarrow> buf = 0x14FC0 \<and> sz = 3"
    by code_simp
  then show ?thesis
    by (auto split: sum.splits)
qed

text \<open>The three-byte file: 35 bytes requested, the block returned already aligned.\<close>

theorem rom_load_alignment_witness:
  "\<exists>b ps' h'. sf2000_malloc_fast boot_pools run_heap (word_of_int (3 + 32)) = Inr (b, ps', h') \<and>
     b \<noteq> 0 \<and> (0x14FC0 :: u32) = (b + SF2000_CACHE_LINE_SIZE - 1) AND NOT (SF2000_CACHE_LINE_SIZE - 1) \<and>
     unat (0x14FC0 :: u32) + nat 3 \<le> unat b + nat 3 + 32"
proof -
  from tiny_rom_loaded obtain ps' h' m' where
    "sf2000_rom_load_optimized rom_fs ''tiny.rom'' boot_pools run_heap zero_memory =
       Inr (0x14FC0, 3, ps', h', m')"
    by blast
  from rom_load_alignment [OF this] show ?thesis
    by simp blast
qed

text \<open>The three-byte file arrives in memory byte for byte.\<close>

theorem rom_load_outcomes_witness:
  "\<exists>ps' h' m'. sf2000_rom_load_optimized rom_fs ''tiny.rom'' boot_pools run_heap zero_memory =
       Inr (0x14FC0, 3, ps', h', m') \<and>
     m' 0x14FC0 = 1 \<and> m' 0x14FC1 = 2 \<and> m' 0x14FC2 = 3"
proof -
  have al: "case sf2000_malloc_fast boot_pools run_heap (word_of_int (file_length tiny_rom + 32)) of
      Inl e \<Rightarrow> False | Inr (b, ps1, h1) \<Rightarrow> b = 0x14FC0"
    by code_simp
  then obtain ps1 h1 where
    "sf2000_malloc_fast boot_pools run_heap (word_of_int (file_length tiny_rom + 32)) = Inr (0x14FC0, ps1, h1)"
    by (auto split: sum.splits)
  then have "fopen rom_fs ''tiny.rom'' = Some tiny_rom \<and> 0 < file_length tiny_rom \<and>
      file_length tiny_rom \<le> SF2000_MAX_ROM_SIZE \<and>
      sf2000_malloc_fast boot_pools run_heap (word_of_int (file_length tiny_rom + 32)) = Inr (0x14FC0, ps1, h1) \<and>
      (0x14FC0 :: u32) \<noteq> 0 \<and>
      nat (file_length tiny_rom) \<le> length (file_bytes tiny_rom)"
    by (simp add: fopen_def rom_fs_def tiny_rom_def SF2000_MAX_ROM_SIZE_def)
  from rom_load_outcomes [of rom_fs "''tiny.rom''" boot_pools run_heap zero_memory,
      THEN conjunct2, THEN conjunct2, THEN conjunct2, THEN conjunct2, THEN conjunct1,
      rule_format, OF this]
  obtain m' where m': "sf2000_rom_load_optimized rom_fs ''tiny.rom'' boot_pools run_heap zero_memory =
       Inr (align_up 0x14FC0, file_length tiny_rom, ps1, h1, m')"
     "\<forall>i<nat (file_length tiny_rom). m' (align_up 0x14FC0 + of_nat i) = file_bytes tiny_rom ! i"
    by blast
  have a: "align_up 0x14FC0 = 0x14FC0"
    by (simp add: align_up_def SF2000_CACHE_LINE_SIZE_def)
  have "m' (0x14FC0 + of_nat 0) = 1" "m' (0x14FC0 + of_nat 1) = 2" "m' (0x14FC0 + of_nat 2) = 3"
    using m'(2) [rule_format, of 0] m'(2) [rule_format, of 1] m'(2) [rule_format, of 2]
    by (simp_all add: a tiny_rom_def)
  then show ?thesis
    using m'(1) by (simp add: a tiny_rom_def)
qed

text \<open>
  Claim C8 as it was stated lists four causes of failure. A fifth one exists: the
  5000-byte file opens, its length is within bounds and every byte of it can be read,
  yet the load fails, because no pool has blocks of 5032 bytes and \<open>malloc\<close> returns
  null.
\<close>

theorem rom_load_fails_on_exhausted_allocator:
  "(case sf2000_rom_load_optimized rom_fs ''game.rom'' boot_pools empty_heap zero_memory of
      Inl e \<Rightarrow> False
    | Inr (buf, sz, ps', h', m') \<Rightarrow> buf = 0 \<and> sz = 0) \<and>
   fopen rom_fs ''game.rom'' = Some big_rom \<and>
   0 < file_length big_rom \<and> file_length big_rom \<le> SF2000_MAX_ROM_SIZE \<and>
   length (file_bytes big_rom) = nat (file_length big_rom)"
  by code_simp

subsection \<open>Copy and fill\<close>

lemma load32_bytes:
  "ucast (load32 m s) = m s"
  "ucast (drop_bit 8 (load32 m s)) = m (s + 1)"
  "ucast (drop_bit 16 (load32 m s)) = m (s + 2)"
  "ucast (drop_bit 24 (load32 m s)) = m (s + 3)"
  unfolding load32_def
  by (rule bit_word_eqI; auto simp: bit_simps dest: bit_imp_le_length)+

lemma pattern_bytes:
  fixes v :: u8
  defines "pattern \<equiv> push_bit 24 (ucast v) OR push_bit 16 (ucast v) OR push_bit 8 (ucast v) OR (ucast v :: u32)"
  shows "ucast pattern = v"
    "ucast (drop_bit 8 pattern) = v"
    "ucast (drop_bit 16 pattern) = v"
    "ucast (drop_bit 24 pattern) = v"
  unfolding pattern_def
  by (rule bit_word_eqI; auto simp: bit_simps dest: bit_imp_le_length)+


lemma fill_word_as_bytes:
  "fill_word_step (push_bit 24 (ucast v) OR push_bit 16 (ucast v) OR push_bit 8 (ucast v) OR ucast v)
     = fill_byte_step v ^^ 4"
proof (rule ext)
  fix x :: fill_state
  obtain m d where x: "x = (m, d)" by (cases x)
  have "(fill_byte_step v ^^ 4) (m, d) = (m(d := v, d + 1 := v, d + 2 := v, d + 3 := v), d + 4)"
    by (simp add: fill_byte_step_def eval_nat_numeral add.commute)
  moreover have "fill_word_step (push_bit 24 (ucast v) OR push_bit 16 (ucast v) OR
        push_bit 8 (ucast v) OR ucast v) (m, d)
      = (m(d := v, d + 1 := v, d + 2 := v, d + 3 := v), d + 4)"
    by (simp only: fill_word_step_def store32_def pattern_bytes prod.case)
  ultimately show "fill_word_step (push_bit 24 (ucast v) OR push_bit 16 (ucast v) OR
        push_bit 8 (ucast v) OR ucast v) x = (fill_byte_step v ^^ 4) x"
    by (simp only: x)
qed

lemma div_mod_4: "n mod 4 + (n div 4) * 4 = (n :: nat)"
  by simp

lemma memset_aligned_eq_memset:
  "sf2000_memset_aligned m dst v sz = memset m dst v sz"
proof (cases "dst AND 3 = 0")
  case False
  then show ?thesis by (simp add: sf2000_memset_aligned_def Let_def)
next
  case True
  have w: "unat (drop_bit 2 sz) = unat sz div 4"
    by (simp add: drop_bit_eq_div unat_div)
  have r: "(sz AND 3 > 0) = (unat sz mod 4 \<noteq> 0)"
    by (simp add: word_less_nat_alt unat_and3)
  have whole: "(fill_byte_step v ^^ (unat sz mod 4)) (((fill_byte_step v ^^ 4) ^^ (unat sz div 4)) (m, dst))
      = (fill_byte_step v ^^ unat sz) (m, dst)"
  proof -
    have "(fill_byte_step v ^^ unat sz) (m, dst)
        = (fill_byte_step v ^^ (unat sz mod 4 + unat sz div 4 * 4)) (m, dst)"
      by (simp only: div_mod_4)
    also have "\<dots> = (fill_byte_step v ^^ (unat sz mod 4)) ((fill_byte_step v ^^ (unat sz div 4 * 4)) (m, dst))"
      by (simp only: funpow_add o_apply)
    also have "fill_byte_step v ^^ (unat sz div 4 * 4) = (fill_byte_step v ^^ 4) ^^ (unat sz div 4)"
      by (simp only: funpow_mult mult.commute)
    finally show ?thesis by simp
  qed
  obtain m1 d1 where st: "((fill_byte_step v ^^ 4) ^^ (unat sz div 4)) (m, dst) = (m1, d1)"
    by (cases "((fill_byte_step v ^^ 4) ^^ (unat sz div 4)) (m, dst)")
  have "sf2000_memset_aligned m dst v sz =
      (if unat sz mod 4 \<noteq> 0 then fst ((fill_byte_step v ^^ (unat sz mod 4)) (m1, d1)) else m1)"
    using True st
    by (simp add: sf2000_memset_aligned_def Let_def for_u32_funpow w r unat_and3 fill_word_as_bytes)
  also have "\<dots> = fst ((fill_byte_step v ^^ (unat sz mod 4)) (m1, d1))"
    by simp
  also have "\<dots> = fst ((fill_byte_step v ^^ unat sz) (m, dst))"
    using whole st by simp
  finally show ?thesis by (simp add: memset_def for_u32_funpow)
qed

lemma fill_bytes_effect:
  "\<exists>m'. (fill_byte_step v ^^ n) (m, d) = (m', d + of_nat n) \<and> (\<forall>i<n. m' (d + of_nat i) = v)"
proof (induction n)
  case 0
  then show ?case by simp
next
  case (Suc n)
  then obtain m' where m': "(fill_byte_step v ^^ n) (m, d) = (m', d + of_nat n)"
      "\<forall>i<n. m' (d + of_nat i) = v"
    by blast
  have "(fill_byte_step v ^^ Suc n) (m, d) = (m'(d + of_nat n := v), d + of_nat (Suc n))"
    using m'(1) by (simp add: fill_byte_step_def algebra_simps)
  moreover have "\<forall>i<Suc n. (m'(d + of_nat n := v)) (d + of_nat i) = v"
    using m'(2) by (auto simp: less_Suc_eq)
  ultimately show ?case by blast
qed

lemma memset_effect: "i < unat sz \<Longrightarrow> memset m dst v sz (dst + of_nat i) = v"
  using fill_bytes_effect [where v = v and n = "unat sz" and m = m and d = dst]
  by (auto simp: memset_def for_u32_funpow)

lemma apart_neq:
  assumes "regions_apart d s n" "i < n" "j < n"
  shows "d + of_nat i \<noteq> s + of_nat j"
proof -
  have "unat d + i < 2 ^ 32" "unat s + j < 2 ^ 32"
    using assms by (auto simp: regions_apart_def)
  then have "unat (d + of_nat i) = unat d + i" "unat (s + of_nat j) = unat s + j"
    by (simp_all only: unat_offset)
  moreover have "unat d + i \<noteq> unat s + j"
    using assms by (auto simp: regions_apart_def)
  ultimately show ?thesis by metis
qed

lemma own_neq:
  assumes "unat d + n \<le> 2 ^ 32" "i < n" "j < n" "i \<noteq> j"
  shows "(d :: u32) + of_nat i \<noteq> d + of_nat j"
proof -
  have "unat d + i < 2 ^ 32" "unat d + j < 2 ^ 32"
    using assms by simp_all
  then have "unat (d + of_nat i) = unat d + i" "unat (d + of_nat j) = unat d + j"
    by (simp_all only: unat_offset)
  then show ?thesis using assms(4) by (metis add_left_cancel)
qed

lemma copy_word_as_bytes:
  assumes "regions_apart d s 4"
  shows "copy_word_step (m, d, s) = (copy_byte_step ^^ 4) (m, d, s)"
proof -
  have n: "s + 1 \<noteq> d" "s + 2 \<noteq> d" "s + 2 \<noteq> d + 1" "s + 3 \<noteq> d" "s + 3 \<noteq> d + 1" "s + 3 \<noteq> d + 2"
    using apart_neq [OF assms, of 0 1] apart_neq [OF assms, of 0 2] apart_neq [OF assms, of 1 2]
      apart_neq [OF assms, of 0 3] apart_neq [OF assms, of 1 3] apart_neq [OF assms, of 2 3]
    by (simp_all add: eq_commute)
  have "(copy_byte_step ^^ 4) (m, d, s)
      = (m(d := m s, d + 1 := m (s + 1), d + 2 := m (s + 2), d + 3 := m (s + 3)), d + 4, s + 4)"
    using n by (simp add: copy_byte_step_def eval_nat_numeral add.commute)
  moreover have "copy_word_step (m, d, s)
      = (m(d := m s, d + 1 := m (s + 1), d + 2 := m (s + 2), d + 3 := m (s + 3)), d + 4, s + 4)"
    by (simp only: copy_word_step_def store32_def load32_bytes prod.case)
  ultimately show ?thesis by simp
qed

lemma apart_shift:
  assumes "regions_apart d s n" "k + j \<le> n"
  shows "regions_apart (d + of_nat k) (s + of_nat k) j"
proof -
  have "unat d + k < 2 ^ 32 \<or> j = 0 \<and> unat d + k \<le> 2 ^ 32" "unat s + k < 2 ^ 32 \<or> j = 0 \<and> unat s + k \<le> 2 ^ 32"
    using assms by (auto simp: regions_apart_def)
  show ?thesis
  proof (cases "unat d + k < 2 ^ 32 \<and> unat s + k < 2 ^ 32")
    case True
    then have "unat (d + of_nat k) = unat d + k" "unat (s + of_nat k) = unat s + k"
      by (simp_all only: unat_offset)
    then show ?thesis using assms by (auto simp: regions_apart_def)
  next
    case False
    then have j0: "j = 0" and kn: "k = n" using assms by (auto simp: regions_apart_def)
    have "unat (d + of_nat k) \<le> 2 ^ 32" "unat (s + of_nat k) \<le> 2 ^ 32"
      using unat_lt_u32 [of "d + of_nat k"] unat_lt_u32 [of "s + of_nat k"] by simp_all
    then show ?thesis
      using j0 by (auto simp: regions_apart_def)
  qed
qed

lemma copy_words_as_bytes:
  assumes "regions_apart d s n"
  shows "4 * k \<le> n \<Longrightarrow> (copy_word_step ^^ k) (m, d, s) = (copy_byte_step ^^ (4 * k)) (m, d, s)"
proof (induction k)
  case 0
  then show ?case by simp
next
  case (Suc k)
  then have ih: "(copy_word_step ^^ k) (m, d, s) = (copy_byte_step ^^ (4 * k)) (m, d, s)"
    by simp
  obtain m1 d1 s1 where st: "(copy_word_step ^^ k) (m, d, s) = (m1, d1, s1)"
    by (cases "(copy_word_step ^^ k) (m, d, s)") auto
  have ptrs: "d1 = d + of_nat (4 * k)" "s1 = s + of_nat (4 * k)"
    using copy_words_ptrs [OF st] by simp_all
  have "regions_apart d1 s1 4"
    unfolding ptrs using assms Suc.prems by (intro apart_shift [where n = n]) simp_all
  then have "copy_word_step (m1, d1, s1) = (copy_byte_step ^^ 4) (m1, d1, s1)"
    by (rule copy_word_as_bytes)
  then have "(copy_word_step ^^ Suc k) (m, d, s) = (copy_byte_step ^^ 4) ((copy_byte_step ^^ (4 * k)) (m, d, s))"
    using st ih by simp
  also have "\<dots> = (copy_byte_step ^^ (4 + 4 * k)) (m, d, s)"
    by (simp only: funpow_add o_apply)
  finally show ?case by (simp add: algebra_simps)
qed

lemma memcpy_aligned_eq_memcpy:
  assumes "regions_apart dst src (unat sz)"
  shows "sf2000_memcpy_aligned m dst src sz = memcpy m dst src sz"
proof (cases "dst AND 3 = 0 \<and> src AND 3 = 0")
  case False
  then show ?thesis by (auto simp: sf2000_memcpy_aligned_def Let_def)
next
  case True
  have le: "4 * (unat sz div 4) \<le> unat sz" by simp
  have "(copy_byte_step ^^ unat sz) (m, dst, src)
      = (copy_byte_step ^^ (unat sz mod 4 + unat sz div 4 * 4)) (m, dst, src)"
    by (simp only: div_mod_4)
  also have "\<dots> = (copy_byte_step ^^ (unat sz mod 4)) ((copy_byte_step ^^ (4 * (unat sz div 4))) (m, dst, src))"
    by (simp only: funpow_add o_apply mult.commute)
  also have "\<dots> = (copy_byte_step ^^ (unat sz mod 4)) ((copy_word_step ^^ (unat sz div 4)) (m, dst, src))"
    by (simp only: copy_words_as_bytes [OF assms le])
  finally show ?thesis
    using True by (simp add: memcpy_aligned_funpow memcpy_def for_u32_funpow)
qed

lemma copy_bytes_effect:
  assumes "regions_apart d s n"
  shows "k \<le> n \<Longrightarrow>
    \<exists>m'. (copy_byte_step ^^ k) (m, d, s) = (m', d + of_nat k, s + of_nat k) \<and>
         (\<forall>i<k. m' (d + of_nat i) = m (s + of_nat i)) \<and>
         (\<forall>a. (\<forall>i<k. a \<noteq> d + of_nat i) \<longrightarrow> m' a = m a)"
proof (induction k)
  case 0
  then show ?case by simp
next
  case (Suc k)
  then obtain m' where m': "(copy_byte_step ^^ k) (m, d, s) = (m', d + of_nat k, s + of_nat k)"
      "\<forall>i<k. m' (d + of_nat i) = m (s + of_nat i)"
      "\<forall>a. (\<forall>i<k. a \<noteq> d + of_nat i) \<longrightarrow> m' a = m a"
    by auto
  have kn: "k < n" using Suc.prems by simp
  have dn: "unat d + n \<le> 2 ^ 32" using assms by (auto simp: regions_apart_def)
  let ?m2 = "m'(d + of_nat k := m' (s + of_nat k))"
  have src_kept: "m' (s + of_nat k) = m (s + of_nat k)"
  proof -
    have "\<forall>i<k. s + of_nat k \<noteq> d + of_nat i"
      using apart_neq [OF assms, of _ k] kn by (metis less_trans)
    then show ?thesis using m'(3) by blast
  qed
  have step: "(copy_byte_step ^^ Suc k) (m, d, s) = (?m2, d + of_nat (Suc k), s + of_nat (Suc k))"
    using m'(1) by (simp add: copy_byte_step_def algebra_simps)
  have copied: "\<forall>i<Suc k. ?m2 (d + of_nat i) = m (s + of_nat i)"
  proof (intro allI impI)
    fix i assume i: "i < Suc k"
    show "?m2 (d + of_nat i) = m (s + of_nat i)"
    proof (cases "i = k")
      case True
      then show ?thesis by (simp add: src_kept)
    next
      case False
      then have ik: "i < k" using i by simp
      have "d + of_nat i \<noteq> d + of_nat k"
        using dn ik kn by (intro own_neq [where n = n]) simp_all
      then show ?thesis using m'(2) ik by simp
    qed
  qed
  have frame: "\<forall>a. (\<forall>i<Suc k. a \<noteq> d + of_nat i) \<longrightarrow> ?m2 a = m a"
    using m'(3) by (auto simp: less_Suc_eq)
  show ?case using step copied frame by blast
qed

lemma memcpy_effect:
  assumes "regions_apart dst src (unat sz)"
  shows "\<forall>i<unat sz. memcpy m dst src sz (dst + of_nat i) = m (src + of_nat i)"
    and "\<forall>a. (\<forall>i<unat sz. a \<noteq> dst + of_nat i) \<longrightarrow> memcpy m dst src sz a = m a"
  using copy_bytes_effect [OF assms order_refl, of m]
  by (auto simp: memcpy_def for_u32_funpow)

text \<open>
  Claim C6. For every byte count and all addresses, whatever their alignment, such that
  source and destination regions lie in the address space and do not overlap,
  \<open>sf2000_memcpy_aligned\<close> leaves the memory that the byte-wise \<open>memcpy\<close> leaves: every
  destination byte holds the corresponding source byte and nothing else has changed.
  \<open>sf2000_memset_aligned\<close> leaves the memory that the byte-wise \<open>memset\<close> leaves, every
  one of the \<open>byteCount\<close> destination bytes equal to the value.
\<close>

theorem copy_fill_correct:
  assumes "unat dst + unat sz \<le> unat src \<and> unat src + unat sz \<le> 2 ^ 32 \<or>
           unat src + unat sz \<le> unat dst \<and> unat dst + unat sz \<le> 2 ^ 32"
  shows "sf2000_memcpy_aligned m dst src sz = memcpy m dst src sz \<and>
         (\<forall>i<unat sz. sf2000_memcpy_aligned m dst src sz (dst + of_nat i) = m (src + of_nat i)) \<and>
         (\<forall>a. (\<forall>i<unat sz. a \<noteq> dst + of_nat i) \<longrightarrow> sf2000_memcpy_aligned m dst src sz a = m a) \<and>
         sf2000_memset_aligned m dst v sz = memset m dst v sz \<and>
         (\<forall>i<unat sz. sf2000_memset_aligned m dst v sz (dst + of_nat i) = v)"
proof -
  have ap: "regions_apart dst src (unat sz)"
    using assms by (simp add: regions_apart_def)
  show ?thesis
    using memcpy_effect [OF ap, of m]
    by (simp add: memcpy_aligned_eq_memcpy [OF ap] memset_aligned_eq_memset memset_effect)
qed

text \<open>Ten bytes copied between aligned regions; seven bytes filled at an odd address.\<close>

theorem copy_fill_correct_witness:
  "sf2000_memcpy_aligned (\<lambda>a. ucast a) 0x1000 0x2000 10 0x1009 = 9 \<and>
   sf2000_memset_aligned (\<lambda>a. ucast a) 0x1001 0xAB 7 0x1007 = 0xAB"
proof -
  have h1: "unat (0x1000 :: u32) + unat (10 :: u32) \<le> unat (0x2000 :: u32) \<and>
            unat (0x2000 :: u32) + unat (10 :: u32) \<le> 2 ^ 32 \<or>
            unat (0x2000 :: u32) + unat (10 :: u32) \<le> unat (0x1000 :: u32) \<and>
            unat (0x1000 :: u32) + unat (10 :: u32) \<le> 2 ^ 32"
    by simp
  have h2: "unat (0x1001 :: u32) + unat (7 :: u32) \<le> unat (0x2000 :: u32) \<and>
            unat (0x2000 :: u32) + unat (7 :: u32) \<le> 2 ^ 32 \<or>
            unat (0x2000 :: u32) + unat (7 :: u32) \<le> unat (0x1001 :: u32) \<and>
            unat (0x1001 :: u32) + unat (7 :: u32) \<le> 2 ^ 32"
    by simp
  have "sf2000_memcpy_aligned (\<lambda>a. ucast a) 0x1000 0x2000 10 (0x1000 + of_nat 9)
      = (\<lambda>a :: u32. ucast a :: u8) (0x2000 + of_nat 9)"
    by (rule copy_fill_correct [OF h1, THEN conjunct2, THEN conjunct1, rule_format]) simp
  moreover have "sf2000_memset_aligned (\<lambda>a. ucast a) 0x1001 0xAB 7 (0x1001 + of_nat 6) = 0xAB"
    by (rule copy_fill_correct [OF h2, THEN conjunct2, THEN conjunct2, THEN conjunct2, THEN conjunct2,
          rule_format]) simp
  ultimately show ?thesis by simp
qed

subsection \<open>Addresses and indices of blocks\<close>

lemma unat_mult_small:
  "unat x * unat y < 2 ^ 32 \<Longrightarrow> unat ((x :: u32) * y) = unat x * unat y"
proof -
  assume "unat x * unat y < 2 ^ 32"
  then have "unat x * unat y < 2 ^ LENGTH(32)" by simp
  then show ?thesis by (simp only: unat_mult_lem)
qed

lemma unat_add_small:
  "unat x + unat y < 2 ^ 32 \<Longrightarrow> unat ((x :: u32) + y) = unat x + unat y"
proof -
  assume "unat x + unat y < 2 ^ 32"
  then have "unat x + unat y < 2 ^ LENGTH(32)" by simp
  then show ?thesis by (simp only: unat_add_lem)
qed

lemma span_end:
  assumes "pool_wf pool"
  shows "unat (pool_memory pool + block_size pool * block_count pool)
           = unat (pool_memory pool) + span_bytes pool"
proof -
  have lt: "unat (pool_memory pool) + span_bytes pool < 2 ^ 32"
    using assms by (simp add: pool_wf_def)
  then have "unat (block_size pool) * unat (block_count pool) < 2 ^ 32"
    by (simp add: span_bytes_def)
  then have m: "unat (block_size pool * block_count pool) = span_bytes pool"
    unfolding span_bytes_def by (rule unat_mult_small)
  then have "unat (pool_memory pool) + unat (block_size pool * block_count pool) < 2 ^ 32"
    using lt by simp
  then show ?thesis using m by (simp only: unat_add_small)
qed

lemma in_pool_span_nat:
  assumes "pool_wf pool"
  shows "in_pool_span pool ptr \<longleftrightarrow>
     unat (pool_memory pool) \<le> unat ptr \<and> unat ptr < unat (pool_memory pool) + span_bytes pool"
  by (simp add: in_pool_span_def word_le_nat_alt word_less_nat_alt span_end [OF assms])

lemma block_addr_nat:
  assumes "pool_wf pool" "x < block_count pool"
  shows "unat (block_addr pool x) = unat (pool_memory pool) + unat x * unat (block_size pool)"
proof -
  have xn: "unat x < unat (block_count pool)" using assms(2) by (simp add: word_less_nat_alt)
  have lt: "unat (pool_memory pool) + span_bytes pool < 2 ^ 32"
    using assms by (simp add: pool_wf_def)
  have "unat x * unat (block_size pool) \<le> unat (block_count pool) * unat (block_size pool)"
    using xn by (intro mult_right_mono) simp_all
  then have le: "unat x * unat (block_size pool) \<le> span_bytes pool"
    by (simp add: span_bytes_def mult.commute)
  then have "unat x * unat (block_size pool) < 2 ^ 32" using lt by simp
  then have m: "unat (x * block_size pool) = unat x * unat (block_size pool)"
    by (rule unat_mult_small)
  then have "unat (pool_memory pool) + unat (x * block_size pool) < 2 ^ 32"
    using lt le by simp
  then show ?thesis
    unfolding block_addr_def using m by (simp only: unat_add_small)
qed

lemma block_addr_in_span:
  assumes "pool_wf pool" "x < block_count pool"
  shows "in_pool_span pool (block_addr pool x)"
proof -
  have xn: "unat x < unat (block_count pool)" using assms(2) by (simp add: word_less_nat_alt)
  have s: "0 < unat (block_size pool)" using assms(1) by (simp add: pool_wf_def)
  have "unat x * unat (block_size pool) < unat (block_count pool) * unat (block_size pool)"
    using xn s by simp
  then have "unat x * unat (block_size pool) < span_bytes pool"
    by (simp only: span_bytes_def mult.commute)
  then show ?thesis
    by (simp add: in_pool_span_nat [OF assms(1)] block_addr_nat [OF assms])
qed

lemma block_addr_nonzero:
  assumes "pool_wf pool" "x < block_count pool"
  shows "block_addr pool x \<noteq> 0"
proof -
  have "0 < unat (block_addr pool x)"
    using assms by (simp add: block_addr_nat pool_wf_def)
  then show ?thesis by (auto simp: unat_eq_zero)
qed

lemma block_index_nat:
  assumes "pool_wf pool" "in_pool_span pool ptr"
  shows "unat (block_index pool ptr) = (unat ptr - unat (pool_memory pool)) div unat (block_size pool)"
proof -
  have "pool_memory pool \<le> ptr" using assms(2) by (simp add: in_pool_span_def)
  then have "unat (ptr - pool_memory pool) = unat ptr - unat (pool_memory pool)"
    by (rule unat_sub)
  then show ?thesis by (simp add: block_index_def unat_div)
qed

lemma block_index_lt:
  assumes "pool_wf pool" "in_pool_span pool ptr"
  shows "block_index pool ptr < block_count pool"
proof -
  have s: "0 < unat (block_size pool)" using assms(1) by (simp add: pool_wf_def)
  have "unat ptr - unat (pool_memory pool) < unat (block_count pool) * unat (block_size pool)"
    using assms by (simp add: in_pool_span_nat span_bytes_def mult.commute) linarith
  then have "(unat ptr - unat (pool_memory pool)) div unat (block_size pool) < unat (block_count pool)"
    using s by (simp add: less_mult_imp_div_less)
  then show ?thesis
    by (simp add: word_less_nat_alt block_index_nat [OF assms])
qed

lemma block_index_addr:
  assumes "pool_wf pool" "x < block_count pool"
  shows "block_index pool (block_addr pool x) = x"
proof -
  have s: "0 < unat (block_size pool)" using assms(1) by (simp add: pool_wf_def)
  have "unat (block_index pool (block_addr pool x)) = unat x"
    using s by (simp add: block_index_nat [OF assms(1) block_addr_in_span [OF assms]]
        block_addr_nat [OF assms])
  then show ?thesis by (simp only: word_unat_eq_iff)
qed

subsection \<open>The outcomes of one call\<close>

lemma free_fast_from_push:
  assumes "k < SF2000_POOL_COUNT" "i \<le> k" "in_pool_span (ps ! k) ptr"
    and "\<forall>j. i \<le> j \<and> j < k \<longrightarrow> \<not> in_pool_span (ps ! j) ptr"
    and "free_count (ps ! k) < block_count (ps ! k)"
    and "free_list (ps ! k) = Some fl" "unat (free_count (ps ! k)) < length fl"
  shows "free_fast_from i ps h ptr =
     Inr (ps[k := (ps ! k)\<lparr>free_list := Some (fl[unat (free_count (ps ! k)) := block_index (ps ! k) ptr]),
                           free_count := free_count (ps ! k) + 1\<rparr>], h)"
  using assms(2,4)
proof (induction "k - i" arbitrary: i)
  case 0
  then have ik: "i = k" by simp
  have "block_size (ps ! k) \<noteq> 0"
    using assms(3) by (auto simp: in_pool_span_def)
  then show ?case
    using assms(1,3,5,6,7) unfolding ik
    by (subst free_fast_from.simps) (simp add: Let_def array_write_def block_index_def)
next
  case (Suc n)
  then have lt: "i < k" by simp
  then have nf: "\<not> in_pool_span (ps ! i) ptr" using Suc.prems by simp
  have "free_fast_from (i + 1) ps h ptr =
     Inr (ps[k := (ps ! k)\<lparr>free_list := Some (fl[unat (free_count (ps ! k)) := block_index (ps ! k) ptr]),
                           free_count := free_count (ps ! k) + 1\<rparr>], h)"
    using Suc.hyps(2) lt Suc.prems by (intro Suc.hyps(1)) auto
  then show ?case
    using nf lt assms(1) by (simp add: free_fast_from.simps [of i] Let_def)
qed

lemma free_fast_from_foreign:
  assumes "i \<le> SF2000_POOL_COUNT"
    and "\<forall>j. i \<le> j \<and> j < SF2000_POOL_COUNT \<longrightarrow> \<not> in_pool_span (ps ! j) ptr"
  shows "free_fast_from i ps h ptr = Inr (ps, free ptr h)"
  using assms
proof (induction "SF2000_POOL_COUNT - i" arbitrary: i)
  case 0
  then have "\<not> i < SF2000_POOL_COUNT" by simp
  then show ?case
    by (subst free_fast_from.simps) simp
next
  case (Suc n)
  then have lt: "i < SF2000_POOL_COUNT" by simp
  then have nf: "\<not> in_pool_span (ps ! i) ptr" using Suc.prems by simp
  have "free_fast_from (i + 1) ps h ptr = Inr (ps, free ptr h)"
    using Suc.hyps(2) lt Suc.prems by (intro Suc.hyps(1)) auto
  then show ?case
    using nf lt by (simp add: free_fast_from.simps [of i] Let_def)
qed

lemma span_unique:
  assumes "pools_wf ps" "j < SF2000_POOL_COUNT" "k < SF2000_POOL_COUNT"
    and "in_pool_span (ps ! j) p" "in_pool_span (ps ! k) p"
  shows "j = k"
proof (rule ccontr)
  assume ne: "j \<noteq> k"
  have wj: "pool_wf (ps ! j)" and wk: "pool_wf (ps ! k)"
    using assms(1,2,3) by (simp_all add: pools_wf_def)
  have "unat (pool_memory (ps ! j)) + span_bytes (ps ! j) \<le> unat (pool_memory (ps ! k)) \<or>
        unat (pool_memory (ps ! k)) + span_bytes (ps ! k) \<le> unat (pool_memory (ps ! j))"
    using assms(1,2,3) ne by (simp add: pools_wf_def)
  then show False
    using assms(4,5) by (auto simp: in_pool_span_nat [OF wj] in_pool_span_nat [OF wk])
qed

lemma malloc_fast_cases:
  assumes "pools_wf ps"
  obtains (pool) k fl where "k < SF2000_POOL_COUNT" "pool_fits (ps ! k) sz"
      "free_list (ps ! k) = Some fl"
      "sf2000_malloc_fast ps h sz =
         Inr (block_addr (ps ! k) (fl ! (unat (free_count (ps ! k)) - 1)),
              ps[k := (ps ! k)\<lparr>free_count := free_count (ps ! k) - 1\<rparr>], h)"
  | (fallback) "sf2000_malloc_fast ps h sz = Inr (fst (malloc sz h), ps, snd (malloc sz h))"
proof (cases "\<exists>k<SF2000_POOL_COUNT. pool_fits (ps ! k) sz")
  case True
  then obtain k where k: "k < SF2000_POOL_COUNT" "pool_fits (ps ! k) sz" "\<forall>j<k. \<not> pool_fits (ps ! j) sz"
    using first_fit_exists [of SF2000_POOL_COUNT "\<lambda>k. pool_fits (ps ! k) sz"] by blast
  have "pool_wf (ps ! k)" using assms k(1) by (simp add: pools_wf_def)
  then obtain fl where fl: "free_list (ps ! k) = Some fl" "unat (free_count (ps ! k)) \<le> length fl"
    by (auto simp: pool_wf_def split: option.splits)
  have "malloc_fast_from 0 ps h sz =
     Inr (pool_memory (ps ! k) + fl ! (unat (free_count (ps ! k)) - 1) * block_size (ps ! k),
          ps[k := (ps ! k)\<lparr>free_count := free_count (ps ! k) - 1\<rparr>], h)"
    using k fl by (intro malloc_fast_from_hit) auto
  then show ?thesis
    using k fl by (intro pool [of k fl]) (simp_all add: sf2000_malloc_fast_def block_addr_def)
next
  case False
  then have "malloc_fast_from 0 ps h sz = Inr (fst (malloc sz h), ps, snd (malloc sz h))"
    by (intro malloc_fast_from_miss) auto
  then show ?thesis
    by (intro fallback) (simp add: sf2000_malloc_fast_def)
qed

lemma free_fast_cases:
  assumes "pools_wf ps"
  obtains (null) "ptr = 0" "sf2000_free_fast ps h ptr = Inr (ps, h)"
  | (foreign) "ptr \<noteq> 0" "\<forall>k<SF2000_POOL_COUNT. \<not> in_pool_span (ps ! k) ptr"
      "sf2000_free_fast ps h ptr = Inr (ps, free ptr h)"
  | (full) k where "k < SF2000_POOL_COUNT" "in_pool_span (ps ! k) ptr"
      "free_count (ps ! k) = block_count (ps ! k)"
      "sf2000_free_fast ps h ptr = Inr (ps, h)"
  | (push) k fl where "k < SF2000_POOL_COUNT" "in_pool_span (ps ! k) ptr"
      "free_count (ps ! k) < block_count (ps ! k)" "free_list (ps ! k) = Some fl"
      "sf2000_free_fast ps h ptr =
         Inr (ps[k := (ps ! k)\<lparr>free_list := Some (fl[unat (free_count (ps ! k)) := block_index (ps ! k) ptr]),
                               free_count := free_count (ps ! k) + 1\<rparr>], h)"
proof (cases "ptr = 0")
  case True
  then show ?thesis by (intro null) (simp_all add: sf2000_free_fast_def)
next
  case nz: False
  show ?thesis
  proof (cases "\<exists>k<SF2000_POOL_COUNT. in_pool_span (ps ! k) ptr")
    case False
    then have "free_fast_from 0 ps h ptr = Inr (ps, free ptr h)"
      by (intro free_fast_from_foreign) auto
    then show ?thesis using nz False by (intro foreign) (simp_all add: sf2000_free_fast_def)
  next
    case True
    then obtain k where k: "k < SF2000_POOL_COUNT" "in_pool_span (ps ! k) ptr" by blast
    have first: "\<forall>j. 0 \<le> j \<and> j < k \<longrightarrow> \<not> in_pool_span (ps ! j) ptr"
      using span_unique [OF assms _ k(1) _ k(2)] k(1) by (metis less_trans nat_neq_iff)
    have wf: "pool_wf (ps ! k)" using assms k(1) by (simp add: pools_wf_def)
    then obtain fl where fl: "free_list (ps ! k) = Some fl" "length fl = unat (block_count (ps ! k))"
        "unat (free_count (ps ! k)) \<le> unat (block_count (ps ! k))"
      by (auto simp: pool_wf_def split: option.splits)
    show ?thesis
    proof (cases "free_count (ps ! k) < block_count (ps ! k)")
      case True
      then have "unat (free_count (ps ! k)) < length fl"
        using fl(2) by (simp add: word_less_nat_alt)
      then have "free_fast_from 0 ps h ptr =
         Inr (ps[k := (ps ! k)\<lparr>free_list := Some (fl[unat (free_count (ps ! k)) := block_index (ps ! k) ptr]),
                               free_count := free_count (ps ! k) + 1\<rparr>], h)"
        using k first True fl(1) by (intro free_fast_from_push) auto
      then show ?thesis
        using nz k True fl(1) by (intro push [of k fl]) (simp_all add: sf2000_free_fast_def)
    next
      case False
      then have eq: "free_count (ps ! k) = block_count (ps ! k)"
        using fl(3) by (simp add: word_less_nat_alt word_unat_eq_iff)
      then have "free_fast_from 0 ps h ptr = Inr (ps, h)"
        using k first by (intro free_fast_from_full [of k]) auto
      then show ?thesis
        using nz k eq by (intro full [of k]) (simp_all add: sf2000_free_fast_def)
    qed
  qed
qed

lemma pools_wf_update:
  assumes "pools_wf ps" "k < SF2000_POOL_COUNT" "pool_wf pool'"
    and "pool_memory pool' = pool_memory (ps ! k)" "block_size pool' = block_size (ps ! k)"
    and "block_count pool' = block_count (ps ! k)"
  shows "pools_wf (ps[k := pool'])"
proof -
  have len: "length ps = SF2000_POOL_COUNT" using assms(1) by (simp add: pools_wf_def)
  have geo: "unat (pool_memory ((ps[k := pool']) ! j)) = unat (pool_memory (ps ! j))"
    "span_bytes ((ps[k := pool']) ! j) = span_bytes (ps ! j)" if "j < SF2000_POOL_COUNT" for j
    using that len assms(2,4,5,6) by (simp_all add: nth_list_update span_bytes_def)
  have "pool_wf ((ps[k := pool']) ! j)" if "j < SF2000_POOL_COUNT" for j
    using that len assms(1,2,3) by (simp add: nth_list_update pools_wf_def)
  moreover have "unat (pool_memory ((ps[k := pool']) ! i)) + span_bytes ((ps[k := pool']) ! i)
        \<le> unat (pool_memory ((ps[k := pool']) ! j)) \<or>
      unat (pool_memory ((ps[k := pool']) ! j)) + span_bytes ((ps[k := pool']) ! j)
        \<le> unat (pool_memory ((ps[k := pool']) ! i))"
    if "i < SF2000_POOL_COUNT" "j < SF2000_POOL_COUNT" "i \<noteq> j" for i j
    using that assms(1) by (simp only: geo) (simp add: pools_wf_def)
  ultimately show ?thesis
    using len by (simp add: pools_wf_def)
qed

lemma pool_wf_take:
  assumes "pool_wf pool" "0 < free_count pool"
  shows "pool_wf (pool\<lparr>free_count := free_count pool - 1\<rparr>)"
proof -
  have u: "unat (free_count pool - 1) = unat (free_count pool) - 1"
    using assms(2) by unat_arith
  obtain fl where fl: "free_list pool = Some fl"
    using assms(1) by (auto simp: pool_wf_def split: option.splits)
  have "set (take (unat (free_count pool) - 1) fl) \<subseteq> set (take (unat (free_count pool)) fl)"
    by (rule set_take_subset_set_take) simp
  then show ?thesis
    using assms(1) fl by (auto simp: pool_wf_def span_bytes_def u)
qed

lemma pool_wf_push:
  assumes "pool_wf pool" "free_count pool < block_count pool" "free_list pool = Some fl"
    and "x < block_count pool"
  shows "pool_wf (pool\<lparr>free_list := Some (fl[unat (free_count pool) := x]),
                      free_count := free_count pool + 1\<rparr>)"
proof -
  have u: "unat (free_count pool + 1) = Suc (unat (free_count pool))"
    using assms(2) by unat_arith
  have len: "length fl = unat (block_count pool)"
    using assms(1,3) by (simp add: pool_wf_def)
  have lt: "unat (free_count pool) < length fl"
    using assms(2) len by (simp add: word_less_nat_alt)
  have t: "take (Suc (unat (free_count pool))) (fl[unat (free_count pool) := x])
      = take (unat (free_count pool)) fl @ [x]"
    using lt by (simp add: take_Suc_conv_app_nth)
  show ?thesis
    using assms lt len by (auto simp: pool_wf_def span_bytes_def u t)
qed

lemma do_call_keeps_wf:
  assumes "pools_wf (pools s)"
  shows "\<exists>s'. do_call c s = Inr s' \<and> pools_wf (pools s')"
proof (cases c)
  case (Allocate sz)
  from assms show ?thesis
  proof (cases rule: malloc_fast_cases [where sz = sz and h = "heap s"])
    case (pool k fl)
    have "pool_wf ((pools s ! k)\<lparr>free_count := free_count (pools s ! k) - 1\<rparr>)"
      using assms pool(1,2) by (intro pool_wf_take) (simp_all add: pools_wf_def pool_fits_def)
    then have "pools_wf ((pools s)[k := (pools s ! k)\<lparr>free_count := free_count (pools s ! k) - 1\<rparr>])"
      using assms pool(1) by (intro pools_wf_update) simp_all
    then show ?thesis
      using pool(4) Allocate by (simp add: do_call_def)
  next
    case fallback
    then show ?thesis
      using assms Allocate by (simp add: do_call_def)
  qed
next
  case (Free ptr)
  from assms show ?thesis
  proof (cases rule: free_fast_cases [where ptr = ptr and h = "heap s"])
    case null
    then show ?thesis using assms Free by (simp add: do_call_def)
  next
    case foreign
    then show ?thesis using assms Free by (simp add: do_call_def)
  next
    case (full k)
    then show ?thesis using assms Free by (simp add: do_call_def)
  next
    case (push k fl)
    have wf: "pool_wf (pools s ! k)" using assms push(1) by (simp add: pools_wf_def)
    have "pool_wf ((pools s ! k)\<lparr>free_list := Some (fl[unat (free_count (pools s ! k)) := block_index (pools s ! k) ptr]),
                               free_count := free_count (pools s ! k) + 1\<rparr>)"
      using wf push(2,3,4) by (intro pool_wf_push block_index_lt)
    then have "pools_wf ((pools s)[k := (pools s ! k)\<lparr>free_list := Some (fl[unat (free_count (pools s ! k)) := block_index (pools s ! k) ptr]),
                               free_count := free_count (pools s ! k) + 1\<rparr>])"
      using assms push(1) by (intro pools_wf_update) simp_all
    then show ?thesis
      using push(5) Free by (simp add: do_call_def)
  qed
qed

lemma run_keeps_wf:
  "pools_wf (pools s) \<Longrightarrow> \<exists>s'. run cs s = Inr s' \<and> pools_wf (pools s')"
proof (induction cs arbitrary: s)
  case Nil
  then show ?case by simp
next
  case (Cons c cs)
  from do_call_keeps_wf [OF Cons.prems, of c] obtain s1 where
    s1: "do_call c s = Inr s1" "pools_wf (pools s1)" by blast
  from Cons.IH [OF s1(2)] show ?case using s1(1) by simp
qed

subsection \<open>Bookkeeping of the pools\<close>

lemma same_geometry:
  assumes "pool_memory pool' = pool_memory pool" "block_size pool' = block_size pool"
    "block_count pool' = block_count pool"
  shows "in_pool_span pool' = in_pool_span pool" "block_index pool' = block_index pool"
    "block_addr pool' = block_addr pool" "allocated pool' = allocated pool"
proof -
  show a: "in_pool_span pool' = in_pool_span pool"
    using assms by (intro ext) (simp add: in_pool_span_def)
  show "block_index pool' = block_index pool"
    using assms by (intro ext) (simp add: block_index_def)
  show "block_addr pool' = block_addr pool"
    using assms by (intro ext) (simp add: block_addr_def)
  show "allocated pool' = allocated pool"
    by (intro ext) (simp add: allocated_def a)
qed

lemma null_outside: "pool_wf pool \<Longrightarrow> \<not> in_pool_span pool 0"
  by (simp add: in_pool_span_nat pool_wf_def)

lemma allocated_skip:
  "\<not> in_pool_span pool p \<Longrightarrow> allocated pool (p # ptrs) = allocated pool ptrs"
  "\<not> in_pool_span pool p \<Longrightarrow> allocated pool (remove1 p ptrs) = allocated pool ptrs"
  by (simp_all add: allocated_def filter_remove1 remove1_idem)

lemma pool_tracked_size:
  assumes "pool_wf pool" "pool_tracked pool ptrs"
  shows "unat (free_count pool) + length (allocated pool ptrs) = unat (block_count pool)"
proof -
  obtain fl where fl: "free_list pool = Some fl" "length fl = unat (block_count pool)"
      "unat (free_count pool) \<le> unat (block_count pool)"
    using assms(1) by (auto simp: pool_wf_def split: option.splits)
  have "mset (map (block_index pool) (allocated pool ptrs)) + mset (take (unat (free_count pool)) fl)
      = mset (map of_nat [0..<unat (block_count pool)])"
    using assms(2) fl(1) by (simp add: pool_tracked_def)
  then have "size (mset (map (block_index pool) (allocated pool ptrs)) + mset (take (unat (free_count pool)) fl))
      = size (mset (map (of_nat :: nat \<Rightarrow> u32) [0..<unat (block_count pool)]))"
    by (rule arg_cong)
  then show ?thesis using fl(2,3) by simp
qed

lemma distinct_indices: "distinct (map (of_nat :: nat \<Rightarrow> u32) [0..<unat (n :: u32)])"
proof -
  have "inj_on (of_nat :: nat \<Rightarrow> u32) (set [0..<unat n])"
  proof (rule inj_onI)
    fix i j assume "i \<in> set [0..<unat n]" "j \<in> set [0..<unat n]"
      and eq: "(of_nat i :: u32) = of_nat j"
    then have "i < 2 ^ 32" "j < 2 ^ 32"
      using unat_lt_u32 [of n] by simp_all
    then show "i = j" using eq by (simp only: of_nat_inj_u32)
  qed
  then show ?thesis by (simp add: distinct_map)
qed

lemma pool_tracked_distinct:
  assumes "pool_tracked pool ptrs" "free_list pool = Some fl"
  shows "distinct (take (unat (free_count pool)) fl)"
proof -
  have eq: "mset (map (block_index pool) (allocated pool ptrs)) + mset (take (unat (free_count pool)) fl)
      = mset (map of_nat [0..<unat (block_count pool)])"
    using assms by (simp add: pool_tracked_def)
  have "count (mset (take (unat (free_count pool)) fl)) a \<le> 1" for a
  proof -
    have "count (mset (take (unat (free_count pool)) fl)) a
        \<le> count (mset (map (block_index pool) (allocated pool ptrs)) + mset (take (unat (free_count pool)) fl)) a"
      by simp
    also have "\<dots> = count (mset (map (of_nat :: nat \<Rightarrow> u32) [0..<unat (block_count pool)])) a"
      by (simp only: eq)
    also have "\<dots> \<le> 1"
      using distinct_indices [of "block_count pool"] by (simp add: distinct_count_atmost_1)
    finally show ?thesis .
  qed
  then show ?thesis
    by (metis count_mset_0_iff distinct_count_atmost_1 le_neq_implies_less less_one)
qed

lemma pool_tracked_take:
  assumes wf: "pool_wf pool" and tr: "pool_tracked pool ptrs" and fl: "free_list pool = Some fl"
    and pos: "0 < free_count pool"
  shows "pool_tracked (pool\<lparr>free_count := free_count pool - 1\<rparr>)
           (block_addr pool (fl ! (unat (free_count pool) - 1)) # ptrs)"
proof -
  define n where "n = unat (free_count pool) - 1"
  define x where "x = fl ! n"
  let ?pool' = "pool\<lparr>free_count := free_count pool - 1\<rparr>"
  have u: "unat (free_count pool - 1) = n"
    unfolding n_def using pos by unat_arith
  have fpos: "0 < unat (free_count pool)" using pos by (simp add: word_less_nat_alt)
  then have sn: "unat (free_count pool) = Suc n" by (simp add: n_def)
  have len: "length fl = unat (block_count pool)" "unat (free_count pool) \<le> unat (block_count pool)"
    using wf fl by (simp_all add: pool_wf_def)
  have nlt: "n < length fl" using sn len by simp
  have t: "take (Suc n) fl = take n fl @ [x]"
    unfolding x_def by (rule take_Suc_conv_app_nth [OF nlt])
  have "x \<in> set (take (unat (free_count pool)) fl)" by (simp add: sn t)
  then have xlt: "x < block_count pool"
    using wf fl by (simp add: pool_wf_def)
  have geo: "allocated ?pool' = allocated pool" "block_index ?pool' = block_index pool"
    "block_addr ?pool' = block_addr pool"
    by (rule same_geometry; simp)+
  have al: "allocated pool (block_addr pool x # ptrs) = block_addr pool x # allocated pool ptrs"
    using block_addr_in_span [OF wf xlt] by (simp add: allocated_def)
  have bi: "block_index pool (block_addr pool x) = x"
    by (rule block_index_addr [OF wf xlt])
  have old1: "\<forall>p\<in>set (allocated pool ptrs). p = block_addr pool (block_index pool p)"
    and old2: "mset (map (block_index pool) (allocated pool ptrs)) + mset (take (Suc n) fl)
      = mset (map of_nat [0..<unat (block_count pool)])"
    using tr fl by (simp_all add: pool_tracked_def sn)
  have new2: "mset (map (block_index pool) (block_addr pool x # allocated pool ptrs)) + mset (take n fl)
      = mset (map of_nat [0..<unat (block_count pool)])"
    using old2 by (simp add: t bi)
  have "pool_tracked ?pool' (block_addr pool x # ptrs)"
    using fl old1 new2 by (simp add: pool_tracked_def geo al u bi)
  then show ?thesis by (simp only: x_def n_def)
qed

lemma pool_tracked_push:
  assumes wf: "pool_wf pool" and tr: "pool_tracked pool ptrs" and fl: "free_list pool = Some fl"
    and lt: "free_count pool < block_count pool"
    and mem: "ptr \<in> set ptrs" and sp: "in_pool_span pool ptr"
  shows "pool_tracked (pool\<lparr>free_list := Some (fl[unat (free_count pool) := block_index pool ptr]),
                            free_count := free_count pool + 1\<rparr>)
           (remove1 ptr ptrs)"
proof -
  let ?x = "block_index pool ptr"
  let ?pool' = "pool\<lparr>free_list := Some (fl[unat (free_count pool) := ?x]),
                      free_count := free_count pool + 1\<rparr>"
  have u: "unat (free_count pool + 1) = Suc (unat (free_count pool))"
    using lt by unat_arith
  have len: "length fl = unat (block_count pool)"
    using wf fl by (simp add: pool_wf_def)
  have flt: "unat (free_count pool) < length fl"
    using lt len by (simp add: word_less_nat_alt)
  have t: "take (Suc (unat (free_count pool))) (fl[unat (free_count pool) := ?x])
      = take (unat (free_count pool)) fl @ [?x]"
    using flt by (simp add: take_Suc_conv_app_nth)
  have geo: "allocated ?pool' = allocated pool" "block_index ?pool' = block_index pool"
    "block_addr ?pool' = block_addr pool"
    by (rule same_geometry; simp)+
  have inA: "ptr \<in> set (allocated pool ptrs)"
    using mem sp by (simp add: allocated_def)
  have al: "allocated pool (remove1 ptr ptrs) = remove1 ptr (allocated pool ptrs)"
    by (simp add: allocated_def filter_remove1)
  have old1: "\<forall>p\<in>set (allocated pool ptrs). p = block_addr pool (block_index pool p)"
    and old2: "mset (map (block_index pool) (allocated pool ptrs)) + mset (take (unat (free_count pool)) fl)
      = mset (map of_nat [0..<unat (block_count pool)])"
    using tr fl by (simp_all add: pool_tracked_def)
  have new1: "\<forall>p\<in>set (remove1 ptr (allocated pool ptrs)). p = block_addr pool (block_index pool p)"
    using old1 by (meson notin_set_remove1)
  have "mset (map (block_index pool) (remove1 ptr (allocated pool ptrs)))
      = image_mset (block_index pool) (mset (allocated pool ptrs) - {#ptr#})"
    by simp
  also have "\<dots> = image_mset (block_index pool) (mset (allocated pool ptrs))
      - image_mset (block_index pool) {#ptr#}"
    using inA by (intro image_mset_Diff) simp
  finally have "mset (map (block_index pool) (remove1 ptr (allocated pool ptrs)))
      = mset (map (block_index pool) (allocated pool ptrs)) - {#?x#}"
    by simp
  moreover have "?x \<in># mset (map (block_index pool) (allocated pool ptrs))"
    using inA by simp
  ultimately have "mset (map (block_index pool) (remove1 ptr (allocated pool ptrs))) + {#?x#}
      = mset (map (block_index pool) (allocated pool ptrs))"
    by simp
  then have "(mset (map (block_index pool) (remove1 ptr (allocated pool ptrs))) + {#?x#})
        + mset (take (unat (free_count pool)) fl)
      = mset (map of_nat [0..<unat (block_count pool)])"
    using old2 by (simp only:)
  then have new2: "mset (map (block_index pool) (remove1 ptr (allocated pool ptrs)))
        + mset (take (unat (free_count pool)) fl @ [?x])
      = mset (map of_nat [0..<unat (block_count pool)])"
    by (simp add: ac_simps)
  show ?thesis
    using new1 new2 by (simp add: pool_tracked_def geo al u t)
qed

lemma tracked_not_full:
  assumes "pool_wf pool" "pool_tracked pool ptrs" "ptr \<in> set ptrs" "in_pool_span pool ptr"
  shows "free_count pool \<noteq> block_count pool"
proof -
  have "ptr \<in> set (allocated pool ptrs)"
    using assms(3,4) by (simp add: allocated_def)
  then have "0 < length (allocated pool ptrs)"
    by (cases "allocated pool ptrs") auto
  then show ?thesis
    using pool_tracked_size [OF assms(1,2)] by auto
qed

lemma pool_tracked_cong:
  assumes "allocated pool ptrs' = allocated pool ptrs"
  shows "pool_tracked pool ptrs' = pool_tracked pool ptrs"
  by (simp only: pool_tracked_def assms)

lemma popped_index_lt:
  assumes "pool_wf pool" "free_list pool = Some fl" "0 < free_count pool"
  shows "fl ! (unat (free_count pool) - 1) < block_count pool"
proof -
  have fpos: "0 < unat (free_count pool)" using assms(3) by (simp add: word_less_nat_alt)
  have "unat (free_count pool) \<le> length fl"
    using assms(1,2) by (simp add: pool_wf_def)
  then have "fl ! (unat (free_count pool) - 1) \<in> set (take (unat (free_count pool)) fl)"
    using fpos by (auto simp: in_set_conv_nth intro!: exI [of _ "unat (free_count pool) - 1"])
  then show ?thesis using assms(1,2) by (simp add: pool_wf_def)
qed

lemma heap_apart_update:
  assumes "heap_apart ps h" "length ps = SF2000_POOL_COUNT"
    and "pool_memory pool' = pool_memory (ps ! k)" "block_size pool' = block_size (ps ! k)"
    and "block_count pool' = block_count (ps ! k)"
  shows "heap_apart (ps[k := pool']) h"
proof -
  have g: "in_pool_span pool' = in_pool_span (ps ! k)"
    using assms(3,4,5) by (rule same_geometry)
  have "in_pool_span ((ps[k := pool']) ! j) = in_pool_span (ps ! j)" if "j < SF2000_POOL_COUNT" for j
  proof (cases "j = k")
    case True
    then show ?thesis using that assms(2) by (simp add: g)
  next
    case False
    then show ?thesis by simp
  qed
  then show ?thesis using assms(1) by (simp add: heap_apart_def)
qed

lemma malloc_answer:
  "fst (malloc sz h) = 0 \<or> fst (malloc sz h) \<in> set (malloc_answers h)"
  "set (malloc_answers (snd (malloc sz h))) \<subseteq> set (malloc_answers h)"
proof -
  show "fst (malloc sz h) = 0 \<or> fst (malloc sz h) \<in> set (malloc_answers h)"
  proof (cases "malloc_answers h")
    case Nil
    then show ?thesis by (simp add: malloc_def)
  next
    case (Cons a rest)
    then show ?thesis by (simp add: malloc_def)
  qed
  show "set (malloc_answers (snd (malloc sz h))) \<subseteq> set (malloc_answers h)"
  proof (cases "malloc_answers h")
    case Nil
    then show ?thesis by (simp add: malloc_def)
  next
    case (Cons a rest)
    then show ?thesis by (simp add: malloc_def subset_insertI)
  qed
qed

lemma tracked_untouched:
  assumes "tracked s" "\<forall>k<SF2000_POOL_COUNT. allocated (pools s ! k) ptrs' = allocated (pools s ! k) (live s)"
    and "set (malloc_answers h') \<subseteq> set (malloc_answers (heap s))"
  shows "tracked \<lparr>pools = pools s, heap = h', live = ptrs'\<rparr>"
proof -
  have "heap_apart (pools s) h'"
    using assms(1,3) by (auto simp: tracked_def heap_apart_def)
  moreover have "\<forall>k<SF2000_POOL_COUNT. pool_tracked (pools s ! k) ptrs'"
  proof (intro allI impI)
    fix k assume k: "k < SF2000_POOL_COUNT"
    then have "pool_tracked (pools s ! k) ptrs' = pool_tracked (pools s ! k) (live s)"
      using assms(2) by (intro pool_tracked_cong) simp
    then show "pool_tracked (pools s ! k) ptrs'"
      using assms(1) k by (simp add: tracked_def)
  qed
  ultimately show ?thesis using assms(1) by (simp add: tracked_def)
qed

lemma tracked_one_pool:
  assumes tr: "tracked s" and k: "k < SF2000_POOL_COUNT"
    and wf': "pool_wf pool'" and pt': "pool_tracked pool' ptrs'"
    and geo: "pool_memory pool' = pool_memory (pools s ! k)" "block_size pool' = block_size (pools s ! k)"
      "block_count pool' = block_count (pools s ! k)"
    and others: "\<forall>j<SF2000_POOL_COUNT. j \<noteq> k \<longrightarrow> allocated (pools s ! j) ptrs' = allocated (pools s ! j) (live s)"
  shows "tracked \<lparr>pools = (pools s)[k := pool'], heap = heap s, live = ptrs'\<rparr>"
proof -
  have wf: "pools_wf (pools s)" using tr by (simp add: tracked_def)
  then have len: "length (pools s) = SF2000_POOL_COUNT" by (simp add: pools_wf_def)
  have 1: "pools_wf ((pools s)[k := pool'])"
    using wf k wf' geo by (rule pools_wf_update)
  have 2: "heap_apart ((pools s)[k := pool']) (heap s)"
    using tr len geo by (intro heap_apart_update) (simp_all add: tracked_def)
  have 3: "pool_tracked ((pools s)[k := pool'] ! j) ptrs'" if j: "j < SF2000_POOL_COUNT" for j
  proof (cases "j = k")
    case True
    then show ?thesis using pt' k len by simp
  next
    case False
    then have "pool_tracked (pools s ! j) ptrs' = pool_tracked (pools s ! j) (live s)"
      using others j by (intro pool_tracked_cong) simp
    then show ?thesis using tr j False by (simp add: tracked_def)
  qed
  show ?thesis using 1 2 3 by (simp add: tracked_def)
qed

lemma do_call_keeps_tracked:
  assumes tr: "tracked s" and ok: "call_ok c s"
  shows "\<exists>s'. do_call c s = Inr s' \<and> tracked s'"
proof -
  have wf: "pools_wf (pools s)" using tr by (simp add: tracked_def)
  have pwf: "pool_wf (pools s ! k)" if "k < SF2000_POOL_COUNT" for k
    using wf that by (simp add: pools_wf_def)
  have ptr: "pool_tracked (pools s ! k) (live s)" if "k < SF2000_POOL_COUNT" for k
    using tr that by (simp add: tracked_def)
  show ?thesis
  proof (cases c)
    case (Allocate sz)
    from wf show ?thesis
    proof (cases rule: malloc_fast_cases [where sz = sz and h = "heap s"])
      case (pool k fl)
      let ?pool = "pools s ! k"
      let ?x = "fl ! (unat (free_count ?pool) - 1)"
      let ?p = "block_addr ?pool ?x"
      have pos: "0 < free_count ?pool" using pool(2) by (simp add: pool_fits_def)
      have xlt: "?x < block_count ?pool"
        using pwf [OF pool(1)] pool(3) pos by (rule popped_index_lt)
      have pnz: "?p \<noteq> 0" using pwf [OF pool(1)] xlt by (rule block_addr_nonzero)
      have insp: "in_pool_span ?pool ?p" using pwf [OF pool(1)] xlt by (rule block_addr_in_span)
      have others: "\<forall>j<SF2000_POOL_COUNT. j \<noteq> k \<longrightarrow>
          allocated (pools s ! j) (?p # live s) = allocated (pools s ! j) (live s)"
      proof (intro allI impI)
        fix j assume j: "j < SF2000_POOL_COUNT" "j \<noteq> k"
        have "\<not> in_pool_span (pools s ! j) ?p"
          using span_unique [OF wf j(1) pool(1) _ insp] j(2) by blast
        then show "allocated (pools s ! j) (?p # live s) = allocated (pools s ! j) (live s)"
          by (rule allocated_skip(1))
      qed
      have wf': "pool_wf (?pool\<lparr>free_count := free_count ?pool - 1\<rparr>)"
        using pwf [OF pool(1)] pos by (rule pool_wf_take)
      have pt': "pool_tracked (?pool\<lparr>free_count := free_count ?pool - 1\<rparr>) (?p # live s)"
        using pwf [OF pool(1)] ptr [OF pool(1)] pool(3) pos by (rule pool_tracked_take)
      have "tracked \<lparr>pools = (pools s)[k := ?pool\<lparr>free_count := free_count ?pool - 1\<rparr>],
                     heap = heap s, live = ?p # live s\<rparr>"
        by (rule tracked_one_pool [OF tr pool(1) wf' pt' _ _ _ others]) simp_all
      then show ?thesis
        using pool(4) Allocate pnz by (simp add: do_call_def)
    next
      case fallback
      let ?p = "fst (malloc sz (heap s))"
      have out: "\<forall>k<SF2000_POOL_COUNT. \<not> in_pool_span (pools s ! k) ?p"
      proof (intro allI impI)
        fix k assume k: "k < SF2000_POOL_COUNT"
        show "\<not> in_pool_span (pools s ! k) ?p"
          using malloc_answer(1) [of sz "heap s"] null_outside [OF pwf [OF k]] tr k
          by (auto simp: tracked_def heap_apart_def)
      qed
      have same: "\<forall>k<SF2000_POOL_COUNT.
          allocated (pools s ! k) (if ?p = 0 then live s else ?p # live s) = allocated (pools s ! k) (live s)"
        using out by (simp add: allocated_skip(1))
      have "tracked \<lparr>pools = pools s, heap = snd (malloc sz (heap s)),
                     live = (if ?p = 0 then live s else ?p # live s)\<rparr>"
        using tr same malloc_answer(2) [of sz "heap s"] by (rule tracked_untouched)
      then show ?thesis
        using fallback Allocate by (simp add: do_call_def)
    qed
  next
    case (Free p)
    from wf show ?thesis
    proof (cases rule: free_fast_cases [where ptr = p and h = "heap s"])
      case null
      have same: "\<forall>k<SF2000_POOL_COUNT.
          allocated (pools s ! k) (remove1 p (live s)) = allocated (pools s ! k) (live s)"
        using null(1) null_outside [OF pwf] by (simp add: allocated_skip(2))
      have "tracked \<lparr>pools = pools s, heap = heap s, live = remove1 p (live s)\<rparr>"
        using tr same subset_refl by (rule tracked_untouched)
      then show ?thesis using null(2) Free by (simp add: do_call_def)
    next
      case foreign
      have same: "\<forall>k<SF2000_POOL_COUNT.
          allocated (pools s ! k) (remove1 p (live s)) = allocated (pools s ! k) (live s)"
        using foreign(2) by (simp add: allocated_skip(2))
      have sub: "set (malloc_answers (free p (heap s))) \<subseteq> set (malloc_answers (heap s))"
        by (simp add: free_def)
      have "tracked \<lparr>pools = pools s, heap = free p (heap s), live = remove1 p (live s)\<rparr>"
        using tr same sub by (rule tracked_untouched)
      then show ?thesis using foreign(3) Free by (simp add: do_call_def)
    next
      case (full k)
      have "p \<noteq> 0" using full(2) null_outside [OF pwf [OF full(1)]] by auto
      then have "p \<in> set (live s)" using ok Free by (simp add: call_ok_def)
      then have "free_count (pools s ! k) \<noteq> block_count (pools s ! k)"
        using pwf [OF full(1)] ptr [OF full(1)] full(2) by (intro tracked_not_full)
      then show ?thesis using full(3) by simp
    next
      case (push k fl)
      let ?pool = "pools s ! k"
      have "p \<noteq> 0" using push(2) null_outside [OF pwf [OF push(1)]] by auto
      then have mem: "p \<in> set (live s)" using ok Free by (simp add: call_ok_def)
      have others: "\<forall>j<SF2000_POOL_COUNT. j \<noteq> k \<longrightarrow>
          allocated (pools s ! j) (remove1 p (live s)) = allocated (pools s ! j) (live s)"
      proof (intro allI impI)
        fix j assume j: "j < SF2000_POOL_COUNT" "j \<noteq> k"
        have "\<not> in_pool_span (pools s ! j) p"
          using span_unique [OF wf j(1) push(1) _ push(2)] j(2) by blast
        then show "allocated (pools s ! j) (remove1 p (live s)) = allocated (pools s ! j) (live s)"
          by (rule allocated_skip(2))
      qed
      have xlt: "block_index ?pool p < block_count ?pool"
        using pwf [OF push(1)] push(2) by (rule block_index_lt)
      have wf': "pool_wf (?pool\<lparr>free_list := Some (fl[unat (free_count ?pool) := block_index ?pool p]),
                               free_count := free_count ?pool + 1\<rparr>)"
        using pwf [OF push(1)] push(3,4) xlt by (rule pool_wf_push)
      have pt': "pool_tracked (?pool\<lparr>free_list := Some (fl[unat (free_count ?pool) := block_index ?pool p]),
                               free_count := free_count ?pool + 1\<rparr>) (remove1 p (live s))"
        using pwf [OF push(1)] ptr [OF push(1)] push(4,3) mem push(2) by (rule pool_tracked_push)
      have "tracked \<lparr>pools = (pools s)[k := ?pool\<lparr>free_list := Some (fl[unat (free_count ?pool) := block_index ?pool p]),
                               free_count := free_count ?pool + 1\<rparr>],
                     heap = heap s, live = remove1 p (live s)\<rparr>"
        by (rule tracked_one_pool [OF tr push(1) wf' pt' _ _ _ others]) simp_all
      then show ?thesis using push(5) Free by (simp add: do_call_def)
    qed
  qed
qed

lemma run_keeps_tracked:
  "tracked s \<Longrightarrow> no_double_free cs s \<Longrightarrow> \<exists>s'. run cs s = Inr s' \<and> tracked s'"
proof (induction cs arbitrary: s)
  case Nil
  then show ?case by simp
next
  case (Cons c cs)
  then have "call_ok c s" by simp
  from do_call_keeps_tracked [OF Cons.prems(1) this] obtain s1 where
    s1: "do_call c s = Inr s1" "tracked s1" by blast
  then have "no_double_free cs s1" using Cons.prems(2) by simp
  from Cons.IH [OF s1(2) this] show ?case using s1(1) by simp
qed

lemma no_double_free_take:
  "no_double_free cs s \<Longrightarrow> no_double_free (take n cs) s"
proof (induction cs arbitrary: n s)
  case Nil
  then show ?case by simp
next
  case (Cons c cs)
  show ?case
  proof (cases n)
    case 0
    then show ?thesis by simp
  next
    case (Suc m)
    then show ?thesis
      using Cons.prems Cons.IH [of _ m] by (auto split: sum.splits)
  qed
qed

subsection \<open>After initialization\<close>

lemma pool_table:
  assumes "i < SF2000_POOL_COUNT"
  shows "unat (SF2000_POOL_SIZES ! i) * unat (blocks_per_pool ! i) = 8192"
    and "0 < unat (SF2000_POOL_SIZES ! i)"
    and "reservation_size i = 8223"
proof -
  have "\<forall>i<8. unat (SF2000_POOL_SIZES ! i) * unat (blocks_per_pool ! i) = 8192 \<and>
      0 < unat (SF2000_POOL_SIZES ! i) \<and> reservation_size i = 8223"
    by (simp add: all_less_8 SF2000_POOL_SIZES_def blocks_per_pool_def reservation_size_def
        SF2000_CACHE_LINE_SIZE_def)
  then show "unat (SF2000_POOL_SIZES ! i) * unat (blocks_per_pool ! i) = 8192"
    and "0 < unat (SF2000_POOL_SIZES ! i)"
    and "reservation_size i = 8223"
    using assms by (simp_all add: SF2000_POOL_COUNT_def)
qed

lemma fresh_pool_fields:
  "pool_memory (fresh_pool i a) = align_up a"
  "block_size (fresh_pool i a) = SF2000_POOL_SIZES ! i"
  "block_count (fresh_pool i a) = blocks_per_pool ! i"
  "free_count (fresh_pool i a) = blocks_per_pool ! i"
  "free_list (fresh_pool i a) = Some (map of_nat [0..<unat (blocks_per_pool ! i)])"
  by (simp_all add: fresh_pool_def align_up_def)

lemma fresh_pool_place:
  assumes "i < SF2000_POOL_COUNT" "a \<noteq> 0" "unat a + reservation_size i < 2 ^ 32"
  shows "unat a \<le> unat (pool_memory (fresh_pool i a))"
    and "unat (pool_memory (fresh_pool i a)) + span_bytes (fresh_pool i a) \<le> unat a + reservation_size i"
    and "0 < unat (pool_memory (fresh_pool i a))"
proof -
  have r: "reservation_size i = 8223" using assms(1) by (rule pool_table)
  have sp: "span_bytes (fresh_pool i a) = 8192"
    using pool_table(1) [OF assms(1)] by (simp add: span_bytes_def fresh_pool_fields)
  have "unat a + 31 < 2 ^ 32" using assms(3) r by simp
  then show ge: "unat a \<le> unat (pool_memory (fresh_pool i a))"
    by (simp only: fresh_pool_fields) (rule unat_align_up_ge)
  show "unat (pool_memory (fresh_pool i a)) + span_bytes (fresh_pool i a) \<le> unat a + reservation_size i"
    using unat_align_up_le [of a] by (simp add: fresh_pool_fields sp r)
  have "0 < unat a" using assms(2) by (simp add: unat_gt_0)
  then show "0 < unat (pool_memory (fresh_pool i a))" using ge by simp
qed

lemma fresh_pool_wf:
  assumes "i < SF2000_POOL_COUNT" "a \<noteq> 0" "unat a + reservation_size i < 2 ^ 32"
  shows "pool_wf (fresh_pool i a)"
proof -
  let ?N = "unat (blocks_per_pool ! i)"
  have in_range: "x < blocks_per_pool ! i" if "x \<in> set (map of_nat [0..<?N])" for x :: u32
  proof -
    from that obtain j where j: "j < ?N" "x = of_nat j" by auto
    have "j < 2 ^ 32" using j(1) unat_lt_u32 [of "blocks_per_pool ! i"] by simp
    then have "unat x = j" unfolding j(2) by (rule unat_of_nat_u32)
    then show ?thesis using j(1) by (simp add: word_less_nat_alt)
  qed
  have "unat (pool_memory (fresh_pool i a)) + span_bytes (fresh_pool i a) < 2 ^ 32"
    using fresh_pool_place(2) [OF assms] assms(3) by simp
  then show ?thesis
    using fresh_pool_place(3) [OF assms] pool_table(2) [OF assms(1)] in_range
    by (simp add: pool_wf_def fresh_pool_fields)
qed

lemma fresh_pool_tracked: "pool_tracked (fresh_pool i a) []"
  by (simp add: pool_tracked_def fresh_pool_fields allocated_def)

lemma init_tracked:
  assumes "reservations_ok h0"
  shows "\<exists>ps0 h1. sf2000_memory_pools_init zero_pools h0 = Inr (ps0, h1) \<and>
           tracked \<lparr>pools = ps0, heap = h1, live = []\<rparr>"
proof -
  define as where "as = malloc_answers h0"
  define ps0 where "ps0 = map (\<lambda>k. fresh_pool k (as ! (2 * k))) [0..<SF2000_POOL_COUNT]"
  have len: "2 * SF2000_POOL_COUNT \<le> length as"
    and ok: "\<And>i. i < SF2000_POOL_COUNT \<Longrightarrow> as ! (2 * i) \<noteq> 0 \<and> as ! (2 * i + 1) \<noteq> 0 \<and>
            unat (as ! (2 * i)) + reservation_size i < 2 ^ 32"
    and apart: "\<And>i j. i < SF2000_POOL_COUNT \<Longrightarrow> j < SF2000_POOL_COUNT \<Longrightarrow> i \<noteq> j \<Longrightarrow>
            unat (as ! (2 * i)) + reservation_size i \<le> unat (as ! (2 * j)) \<or>
            unat (as ! (2 * j)) + reservation_size j \<le> unat (as ! (2 * i))"
    and later: "\<And>p i. p \<in> set (drop (2 * SF2000_POOL_COUNT) as) \<Longrightarrow> i < SF2000_POOL_COUNT \<Longrightarrow>
            unat p < unat (as ! (2 * i)) \<or> unat (as ! (2 * i)) + reservation_size i \<le> unat p"
    using assms unfolding reservations_ok_def as_def Let_def by blast+
  have h0: "pools_init_from 0 zero_pools \<lparr>malloc_answers = as, sys_calls = sys_calls h0\<rparr>
      = sf2000_memory_pools_init zero_pools h0"
    by (cases h0) (simp add: as_def sf2000_memory_pools_init_def)
  have "\<exists>h'. pools_init_from 0 zero_pools \<lparr>malloc_answers = as, sys_calls = sys_calls h0\<rparr> =
           Inr (take 0 zero_pools @ map (\<lambda>k. fresh_pool k (as ! (2 * (k - 0)))) [0..<SF2000_POOL_COUNT], h')
         \<and> malloc_answers h' = drop (2 * SF2000_POOL_COUNT) as"
    using len ok by (intro pools_init_from_ok) (simp_all add: zero_pools_def)
  then obtain h1 where h1: "sf2000_memory_pools_init zero_pools h0 = Inr (ps0, h1)"
      "malloc_answers h1 = drop (2 * SF2000_POOL_COUNT) as"
    unfolding h0 ps0_def by auto
  have nth: "ps0 ! k = fresh_pool k (as ! (2 * k))" if "k < SF2000_POOL_COUNT" for k
    using that by (simp add: ps0_def)
  have wfk: "pool_wf (ps0 ! k)" if "k < SF2000_POOL_COUNT" for k
    using that ok [OF that] by (simp add: nth fresh_pool_wf)
  have place: "unat (as ! (2 * k)) \<le> unat (pool_memory (ps0 ! k))"
      "unat (pool_memory (ps0 ! k)) + span_bytes (ps0 ! k) \<le> unat (as ! (2 * k)) + reservation_size k"
    if "k < SF2000_POOL_COUNT" for k
    using that ok [OF that] by (simp_all add: nth fresh_pool_place)
  have disj: "unat (pool_memory (ps0 ! j)) + span_bytes (ps0 ! j) \<le> unat (pool_memory (ps0 ! k)) \<or>
        unat (pool_memory (ps0 ! k)) + span_bytes (ps0 ! k) \<le> unat (pool_memory (ps0 ! j))"
    if "j < SF2000_POOL_COUNT" "k < SF2000_POOL_COUNT" "j \<noteq> k" for j k
    using apart [OF that] place [OF that(1)] place [OF that(2)] by linarith
  have 1: "pools_wf ps0"
    using wfk disj by (simp add: pools_wf_def ps0_def)
  have 2: "heap_apart ps0 h1"
    unfolding heap_apart_def h1(2)
  proof (intro ballI allI impI)
    fix p k assume p: "p \<in> set (drop (2 * SF2000_POOL_COUNT) as)" and k: "k < SF2000_POOL_COUNT"
    show "\<not> in_pool_span (ps0 ! k) p"
      using later [OF p k] place [OF k] by (simp add: in_pool_span_nat [OF wfk [OF k]]) linarith
  qed
  have 3: "\<forall>k<SF2000_POOL_COUNT. pool_tracked (ps0 ! k) []"
    by (simp add: nth fresh_pool_tracked)
  have "tracked \<lparr>pools = ps0, heap = h1, live = []\<rparr>"
    using 1 2 3 by (simp add: tracked_def)
  then show ?thesis using h1(1) by blast
qed

subsection \<open>Conservation and the free-list invariant\<close>

text \<open>
  Claim C3. Start from a successful initialization (the environment answering as a
  working allocator does) and make any sequence of Allocate and Free calls in which
  every Free gets null or a pointer that is currently allocated. Then every call
  returns, and after every call (after every prefix of the sequence) each pool has
  \<open>free_count\<close> plus the number of its blocks currently allocated equal to
  \<open>block_count\<close>.
\<close>

theorem pool_conservation:
  assumes "reservations_ok h0"
    and "sf2000_memory_pools_init zero_pools h0 = Inr (ps0, h1)"
    and "no_double_free cs \<lparr>pools = ps0, heap = h1, live = []\<rparr>"
  shows "\<forall>n\<le>length cs. \<exists>s. run (take n cs) \<lparr>pools = ps0, heap = h1, live = []\<rparr> = Inr s \<and>
           (\<forall>k<SF2000_POOL_COUNT.
              unat (free_count (pools s ! k)) + length (allocated (pools s ! k) (live s))
                = unat (block_count (pools s ! k)))"
proof (intro allI impI)
  fix n assume "n \<le> length cs"
  let ?s0 = "\<lparr>pools = ps0, heap = h1, live = []\<rparr>"
  have tr0: "tracked ?s0"
    using init_tracked [OF assms(1)] assms(2) by auto
  have "no_double_free (take n cs) ?s0"
    using assms(3) by (rule no_double_free_take)
  from run_keeps_tracked [OF tr0 this] obtain s where
    s: "run (take n cs) ?s0 = Inr s" "tracked s" by blast
  have "unat (free_count (pools s ! k)) + length (allocated (pools s ! k) (live s))
      = unat (block_count (pools s ! k))" if "k < SF2000_POOL_COUNT" for k
    using s(2) that by (intro pool_tracked_size) (simp_all add: tracked_def pools_wf_def)
  then show "\<exists>s. run (take n cs) ?s0 = Inr s \<and>
           (\<forall>k<SF2000_POOL_COUNT.
              unat (free_count (pools s ! k)) + length (allocated (pools s ! k) (live s))
                = unat (block_count (pools s ! k)))"
    using s(1) by blast
qed

text \<open>
  Claim C4, amended. After a successful initialization and any sequence of Allocate and
  Free calls whatever (pointers freed twice and foreign pointers included), every call
  returns and for every pool \<open>free_count \<le> block_count\<close> holds and the first
  \<open>free_count\<close> entries of its free list are values in \<open>[0, block_count)\<close>. They are
  pairwise distinct when no pointer of the sequence is freed twice.
\<close>

theorem free_list_invariant:
  assumes "reservations_ok h0"
    and "sf2000_memory_pools_init zero_pools h0 = Inr (ps0, h1)"
  shows "\<forall>n\<le>length cs. \<exists>s. run (take n cs) \<lparr>pools = ps0, heap = h1, live = []\<rparr> = Inr s \<and>
           (\<forall>k<SF2000_POOL_COUNT. \<exists>fl.
              free_list (pools s ! k) = Some fl \<and>
              free_count (pools s ! k) \<le> block_count (pools s ! k) \<and>
              (\<forall>x\<in>set (take (unat (free_count (pools s ! k))) fl). x < block_count (pools s ! k)) \<and>
              (no_double_free cs \<lparr>pools = ps0, heap = h1, live = []\<rparr> \<longrightarrow>
                 distinct (take (unat (free_count (pools s ! k))) fl)))"
proof (intro allI impI)
  fix n assume "n \<le> length cs"
  let ?s0 = "\<lparr>pools = ps0, heap = h1, live = []\<rparr>"
  have tr0: "tracked ?s0"
    using init_tracked [OF assms(1)] assms(2) by auto
  then have "pools_wf (pools ?s0)" by (simp add: tracked_def)
  from run_keeps_wf [OF this, of "take n cs"] obtain s where
    s: "run (take n cs) ?s0 = Inr s" "pools_wf (pools s)" by blast
  have "\<exists>fl. free_list (pools s ! k) = Some fl \<and>
      free_count (pools s ! k) \<le> block_count (pools s ! k) \<and>
      (\<forall>x\<in>set (take (unat (free_count (pools s ! k))) fl). x < block_count (pools s ! k)) \<and>
      (no_double_free cs ?s0 \<longrightarrow> distinct (take (unat (free_count (pools s ! k))) fl))"
    if k: "k < SF2000_POOL_COUNT" for k
  proof -
    have "pool_wf (pools s ! k)" using s(2) k by (simp add: pools_wf_def)
    then obtain fl where fl: "free_list (pools s ! k) = Some fl"
        "unat (free_count (pools s ! k)) \<le> unat (block_count (pools s ! k))"
        "\<forall>x\<in>set (take (unat (free_count (pools s ! k))) fl). x < block_count (pools s ! k)"
      by (auto simp: pool_wf_def split: option.splits)
    have "distinct (take (unat (free_count (pools s ! k))) fl)" if ndf: "no_double_free cs ?s0"
    proof -
      have "no_double_free (take n cs) ?s0" using ndf by (rule no_double_free_take)
      from run_keeps_tracked [OF tr0 this] s(1) have "tracked s" by simp
      then have "pool_tracked (pools s ! k) (live s)" using k by (simp add: tracked_def)
      then show ?thesis using fl(1) by (rule pool_tracked_distinct)
    qed
    then show ?thesis using fl by (auto simp: word_le_nat_alt)
  qed
  then show "\<exists>s. run (take n cs) ?s0 = Inr s \<and>
           (\<forall>k<SF2000_POOL_COUNT. \<exists>fl.
              free_list (pools s ! k) = Some fl \<and>
              free_count (pools s ! k) \<le> block_count (pools s ! k) \<and>
              (\<forall>x\<in>set (take (unat (free_count (pools s ! k))) fl). x < block_count (pools s ! k)) \<and>
              (no_double_free cs ?s0 \<longrightarrow> distinct (take (unat (free_count (pools s ! k))) fl)))"
    using s(1) by blast
qed

lemma boot_reservations_ok: "reservations_ok boot_heap"
proof -
  have r: "\<forall>i<8. reservation_size i = 8223"
    using pool_table(3) by (simp add: SF2000_POOL_COUNT_def)
  show ?thesis
    unfolding reservations_ok_def Let_def SF2000_POOL_COUNT_def
    using r by (simp add: all_less_8 boot_heap_def boot_answers_def)
qed

lemma boot_init: "sf2000_memory_pools_init zero_pools boot_heap = Inr (boot_pools, boot_heap_after)"
  by code_simp

text \<open>
  Claim C4 as it was stated promises distinct entries after every sequence of calls. With
  two blocks of the 32-byte pool allocated, freeing the first of them twice passes the
  capacity check both times and pushes its index 255 twice: the first 256 entries of the
  free list then hold 255 at positions 254 and 255.
\<close>

theorem free_list_duplicates_after_double_free:
  "reservations_ok boot_heap \<and>
   sf2000_memory_pools_init zero_pools boot_heap = Inr (boot_pools, boot_heap_after) \<and>
   (\<exists>s fl. run [Allocate 1, Allocate 1, Free 0x11FE0, Free 0x11FE0]
             \<lparr>pools = boot_pools, heap = boot_heap_after, live = []\<rparr> = Inr s \<and>
           free_list (pools s ! 0) = Some fl \<and>
           \<not> distinct (take (unat (free_count (pools s ! 0))) fl))"
proof -
  have "case run [Allocate 1, Allocate 1, Free 0x11FE0, Free 0x11FE0]
           \<lparr>pools = boot_pools, heap = boot_heap_after, live = []\<rparr> of
      Inl e \<Rightarrow> False
    | Inr s \<Rightarrow>
        (case free_list (pools s ! 0) of
           None \<Rightarrow> False
         | Some fl \<Rightarrow>
             unat (free_count (pools s ! 0)) = 256 \<and> length fl = 256 \<and> fl ! 254 = fl ! 255)"
    by code_simp
  then obtain s fl where s: "run [Allocate 1, Allocate 1, Free 0x11FE0, Free 0x11FE0]
           \<lparr>pools = boot_pools, heap = boot_heap_after, live = []\<rparr> = Inr s"
      "free_list (pools s ! 0) = Some fl"
      "unat (free_count (pools s ! 0)) = 256" "length fl = 256" "fl ! 254 = fl ! 255"
    by (auto split: sum.splits option.splits)
  have "\<not> distinct (take 256 fl)"
  proof
    assume "distinct (take 256 fl)"
    then have "take 256 fl ! 254 \<noteq> take 256 fl ! 255"
      using s(4) by (simp add: distinct_conv_nth)
    then show False using s(5) by simp
  qed
  then show ?thesis
    using boot_reservations_ok boot_init s(1,2,3) by auto
qed

text \<open>
  An example sequence: a 40-byte block from the 64-byte pool, its release, and a 5000-byte
  request that falls through to \<open>malloc\<close>.
\<close>

lemma example_calls_ok:
  "no_double_free [Allocate 40, Free 0x14FC0, Allocate 5000]
     \<lparr>pools = boot_pools, heap = boot_heap_after, live = []\<rparr>"
  by code_simp

text \<open>After the example sequence the 64-byte pool is whole again.\<close>

theorem pool_conservation_witness:
  "\<exists>s. run [Allocate 40, Free 0x14FC0, Allocate 5000]
           \<lparr>pools = boot_pools, heap = boot_heap_after, live = []\<rparr> = Inr s \<and>
       unat (free_count (pools s ! 1)) + length (allocated (pools s ! 1) (live s))
         = unat (block_count (pools s ! 1))"
proof -
  from pool_conservation [OF boot_reservations_ok boot_init example_calls_ok, rule_format, of 3]
  obtain s where "run [Allocate 40, Free 0x14FC0, Allocate 5000]
           \<lparr>pools = boot_pools, heap = boot_heap_after, live = []\<rparr> = Inr s"
    "\<forall>k<SF2000_POOL_COUNT.
              unat (free_count (pools s ! k)) + length (allocated (pools s ! k) (live s))
                = unat (block_count (pools s ! k))"
    by auto
  then show ?thesis
    by (intro exI [of _ s]) (simp add: SF2000_POOL_COUNT_def)
qed

text \<open>After the example sequence the free list of the 64-byte pool has distinct entries.\<close>

theorem free_list_invariant_witness:
  "\<exists>s fl. run [Allocate 40, Free 0x14FC0, Allocate 5000]
           \<lparr>pools = boot_pools, heap = boot_heap_after, live = []\<rparr> = Inr s \<and>
       free_list (pools s ! 1) = Some fl \<and>
       free_count (pools s ! 1) \<le> block_count (pools s ! 1) \<and>
       distinct (take (unat (free_count (pools s ! 1))) fl)"
proof -
  from free_list_invariant [OF boot_reservations_ok boot_init, rule_format,
      of 3 "[Allocate 40, Free 0x14FC0, Allocate 5000]"]
  obtain s where s: "run [Allocate 40, Free 0x14FC0, Allocate 5000]
           \<lparr>pools = boot_pools, heap = boot_heap_after, live = []\<rparr> = Inr s"
    "\<forall>k<SF2000_POOL_COUNT. \<exists>fl.
              free_list (pools s ! k) = Some fl \<and>
              free_count (pools s ! k) \<le> block_count (pools s ! k) \<and>
              (\<forall>x\<in>set (take (unat (free_count (pools s ! k))) fl). x < block_count (pools s ! k)) \<and>
              (no_double_free [Allocate 40, Free 0x14FC0, Allocate 5000]
                 \<lparr>pools = boot_pools, heap = boot_heap_after, live = []\<rparr> \<longrightarrow>
                 distinct (take (unat (free_count (pools s ! k))) fl))"
    by auto
  from s(2) [rule_format, of 1] example_calls_ok obtain fl where
    "free_list (pools s ! 1) = Some fl"
    "free_count (pools s ! 1) \<le> block_count (pools s ! 1)"
    "distinct (take (unat (free_count (pools s ! 1))) fl)"
    by (auto simp: SF2000_POOL_COUNT_def)
  then show ?thesis using s(1) by blast
qed

end
